theory Spec2Isabelle
  imports Main "HOL-Library.Multiset"
begin

section \<open>Data model (types.ts, utils/checkbox.ts)\<close>

text \<open>
  \<^verbatim>\<open>CategoryId\<close> is a union of fifteen string literals; it is an enumeration here, and
  \<^verbatim>\<open>String(categoryId)\<close>, the key of the per-category UI store, is the constructor itself.
\<close>

datatype CategoryId =
  SystemCache | SystemLogs | TempFiles | Trash | Downloads | BrowserCache | DevCache
  | Homebrew | Docker | IosBackups | MailAttachments | LanguageFiles | LargeFiles
  | NodeModules | Duplicates

text \<open>
  \<^verbatim>\<open>CleanableItem\<close>: the byte size is a natural number, the optional \<^verbatim>\<open>modifiedAt\<close> is
  never read by the picker and is left out.
\<close>

record CleanableItem =
  item_path :: string
  item_size :: nat
  item_name :: string
  isDirectory :: bool

record Category =
  cat_id :: CategoryId
  cat_name :: string
  supportsFileSelection :: bool

record ScanResult =
  category :: Category
  items :: "CleanableItem list"
  totalSize :: nat

record DirectoryGroup =
  group_path :: string
  files :: "CleanableItem list"
  largestFileSize :: nat

text \<open>
  A value found under a directory key of \<^verbatim>\<open>dirExpandLimits\<close>. The record is typed
  \<^verbatim>\<open>Record<string, number>\<close>, but the expand handler can store a string there (see
  \<^verbatim>\<open>expanded_limit\<close> below). Every such string is the text of a function or of an object
  followed by digits, so it converts to \<^verbatim>\<open>NaN\<close>, whatever its characters are.
\<close>

datatype LimitValue = NumberLimit int | StringLimit

text \<open>\<^verbatim>\<open>visibleCount\<close> is a JavaScript number: \<open>None\<close> stands for \<^verbatim>\<open>NaN\<close>.\<close>

record LimitedGroup =
  lg_group :: DirectoryGroup
  visibleCount :: "int option"
  hasMore :: bool

datatype RowType = DirectoryHeader | FileRow | ExpandHint

text \<open>
  \<^verbatim>\<open>GroupedFileDisplay\<close>: the fields the picker's key handlers read. The presentation
  fields (\<^verbatim>\<open>displayName\<close>, \<^verbatim>\<open>directoryPath\<close>, \<^verbatim>\<open>path\<close>, \<^verbatim>\<open>size\<close>, \<^verbatim>\<open>name\<close>) are
  copies of the item or of the group path, or the output of the path truncation, and only the
  line renderer reads them.
\<close>

record GroupedFileDisplay =
  row_type :: RowType
  directoryKey :: "string option"
  row_item :: "CleanableItem option"
  selectable :: bool
  hiddenCount :: "int option"
  totalFilesInDir :: "nat option"

text \<open>
  The names an empty object literal inherits from \<^verbatim>\<open>Object.prototype\<close>: reading one of
  them from a plain object that has no own property of that name gives the inherited function
  (for \<^verbatim>\<open>__proto__\<close> the prototype object), not \<^verbatim>\<open>undefined\<close>.
\<close>

definition object_prototype_keys :: "string list" where
  "object_prototype_keys =
     [''constructor'', ''__proto__'', ''hasOwnProperty'', ''isPrototypeOf'',
      ''propertyIsEnumerable'', ''toLocaleString'', ''toString'', ''valueOf'',
      ''__defineGetter__'', ''__defineSetter__'', ''__lookupGetter__'', ''__lookupSetter__'']"

section \<open>Platform functions\<close>

text \<open>
  \<^verbatim>\<open>path.dirname\<close> of Node (POSIX): scan from the end down to index 1, skip the trailing
  slashes, stop at the first slash after a non-slash character.
\<close>

fun dirname_scan :: "string \<Rightarrow> nat \<Rightarrow> bool \<Rightarrow> nat option" where
  "dirname_scan p 0 matchedSlash = None"
| "dirname_scan p (Suc i) matchedSlash =
     (if p ! Suc i = CHR ''/''
      then (if \<not> matchedSlash then Some (Suc i) else dirname_scan p i matchedSlash)
      else dirname_scan p i False)"

definition dirname :: "string \<Rightarrow> string" where
  "dirname p =
     (if p = [] then ''.''
      else (case dirname_scan p (length p - 1) True of
              None \<Rightarrow> (if hd p = CHR ''/'' then ''/'' else ''.'')
            | Some e \<Rightarrow> (if hd p = CHR ''/'' \<and> e = 1 then ''//'' else take e p)))"

text \<open>
  \<^verbatim>\<open>Array.prototype.sort\<close> with a comparator: the sort is stable, and \<^verbatim>\<open>a\<close> stays before
  \<^verbatim>\<open>b\<close> unless the comparator is positive. An insertion sort from the right computes it.
\<close>

fun sort_insert :: "('a \<Rightarrow> 'a \<Rightarrow> int) \<Rightarrow> 'a \<Rightarrow> 'a list \<Rightarrow> 'a list" where
  "sort_insert cmp x [] = [x]"
| "sort_insert cmp x (y # ys) =
     (if cmp x y \<le> 0 then x # y # ys else y # sort_insert cmp x ys)"

definition js_sort :: "('a \<Rightarrow> 'a \<Rightarrow> int) \<Rightarrow> 'a list \<Rightarrow> 'a list" where
  "js_sort cmp xs = foldr (sort_insert cmp) xs []"

text \<open>Array indexing by a JavaScript number: out of range is \<^verbatim>\<open>undefined\<close>.\<close>

definition at :: "'a list \<Rightarrow> int \<Rightarrow> 'a option" where
  "at xs i = (if 0 \<le> i \<and> i < int (length xs) then Some (xs ! nat i) else None)"

section \<open>Directory grouper (utils/grouping.ts)\<close>

text \<open>
  The \<^verbatim>\<open>Map<string, CleanableItem[]>\<close> of \<^verbatim>\<open>groupByDirectory\<close> keeps its keys in insertion
  order: an association list, a new directory appended, a file pushed at the end of its
  directory's array.
\<close>

fun push_file :: "string \<Rightarrow> CleanableItem \<Rightarrow> (string \<times> CleanableItem list) list
    \<Rightarrow> (string \<times> CleanableItem list) list" where
  "push_file dir f [] = [(dir, [f])]"
| "push_file dir f ((d, fs) # rest) =
     (if d = dir then (d, fs @ [f]) # rest else (d, fs) # push_file dir f rest)"

definition group_entries :: "CleanableItem list \<Rightarrow> (string \<times> CleanableItem list) list" where
  "group_entries fs = fold (\<lambda>f groups. push_file (dirname (item_path f)) f groups) fs []"

definition by_size_desc :: "CleanableItem \<Rightarrow> CleanableItem \<Rightarrow> int" where
  "by_size_desc a b = int (item_size b) - int (item_size a)"

definition by_largest_desc :: "DirectoryGroup \<Rightarrow> DirectoryGroup \<Rightarrow> int" where
  "by_largest_desc a b = int (largestFileSize b) - int (largestFileSize a)"

definition make_group :: "string \<times> CleanableItem list \<Rightarrow> DirectoryGroup" where
  "make_group e =
     (let sortedFiles = js_sort by_size_desc (snd e)
      in \<lparr>group_path = fst e, files = sortedFiles,
          largestFileSize = (case sortedFiles of [] \<Rightarrow> 0 | f # _ \<Rightarrow> item_size f)\<rparr>)"

definition groupByDirectory :: "CleanableItem list \<Rightarrow> DirectoryGroup list" where
  "groupByDirectory fs = js_sort by_largest_desc (map make_group (group_entries fs))"

text \<open>
  \<^verbatim>\<open>limits\<close> is a \<^verbatim>\<open>Map\<close> built from the own entries of the record, so the lookup is
  exact. With a string for a limit, \<^verbatim>\<open>Math.min\<close> is \<^verbatim>\<open>NaN\<close> and the comparison
  \<^verbatim>\<open>length > limit\<close> is false.
\<close>

definition applyExpandLimits ::
  "DirectoryGroup list \<Rightarrow> (string \<rightharpoonup> LimitValue) \<Rightarrow> int \<Rightarrow> LimitedGroup list" where
  "applyExpandLimits groups limits defaultLimit =
     map (\<lambda>g.
       let limit = (case limits (group_path g) of
                      Some l \<Rightarrow> l | None \<Rightarrow> NumberLimit defaultLimit)
       in \<lparr>lg_group = g,
           visibleCount = (case limit of
                             NumberLimit n \<Rightarrow> Some (min n (int (length (files g))))
                           | StringLimit \<Rightarrow> None),
           hasMore = (case limit of
                        NumberLimit n \<Rightarrow> int (length (files g)) > n
                      | StringLimit \<Rightarrow> False)\<rparr>) groups"

definition header_row :: "DirectoryGroup \<Rightarrow> GroupedFileDisplay" where
  "header_row g = \<lparr>row_type = DirectoryHeader, directoryKey = Some (group_path g),
     row_item = None, selectable = False, hiddenCount = None,
     totalFilesInDir = Some (length (files g))\<rparr>"

definition file_row :: "DirectoryGroup \<Rightarrow> CleanableItem \<Rightarrow> GroupedFileDisplay" where
  "file_row g f = \<lparr>row_type = FileRow, directoryKey = Some (group_path g),
     row_item = Some f, selectable = True, hiddenCount = None,
     totalFilesInDir = Some (length (files g))\<rparr>"

text \<open>
  The hint row exists only when \<^verbatim>\<open>hasMore\<close> holds, and then \<^verbatim>\<open>visibleCount\<close> is a
  number; \<^verbatim>\<open>hiddenCount\<close> is read by the line renderer only.
\<close>

definition hint_row :: "DirectoryGroup \<Rightarrow> int option \<Rightarrow> GroupedFileDisplay" where
  "hint_row g vc = \<lparr>row_type = ExpandHint, directoryKey = Some (group_path g),
     row_item = None, selectable = False,
     hiddenCount = map_option (\<lambda>n. int (length (files g)) - n) vc,
     totalFilesInDir = Some (length (files g))\<rparr>"

text \<open>
  How often the loop \<^verbatim>\<open>for (let i = 0; i < visibleCount; i++)\<close> runs: never when
  \<^verbatim>\<open>visibleCount\<close> is \<^verbatim>\<open>NaN\<close> or not positive.
\<close>

definition shown :: "LimitedGroup \<Rightarrow> nat" where
  "shown lg = (case visibleCount lg of Some n \<Rightarrow> nat n | None \<Rightarrow> 0)"

definition group_rows :: "LimitedGroup \<Rightarrow> GroupedFileDisplay list" where
  "group_rows lg =
     header_row (lg_group lg)
     # map (file_row (lg_group lg)) (take (shown lg) (files (lg_group lg)))
     @ (if hasMore lg then [hint_row (lg_group lg) (visibleCount lg)] else [])"

definition formatAsDisplayItems :: "LimitedGroup list \<Rightarrow> GroupedFileDisplay list" where
  "formatAsDisplayItems limitedGroups = concat (map group_rows limitedGroups)"

definition groupFilesByDirectory ::
  "CleanableItem list \<Rightarrow> (string \<rightharpoonup> LimitValue) \<Rightarrow> int \<Rightarrow> GroupedFileDisplay list" where
  "groupFilesByDirectory fs dirExpandLimits defaultLimit =
     formatAsDisplayItems (applyExpandLimits (groupByDirectory fs) dirExpandLimits defaultLimit)"

section \<open>Picker prompt (pickers/file-picker.ts)\<close>

datatype Pane = Categories | Files

record FilePickerState =
  visible :: bool
  active :: bool
  fileCaret :: int
  dirExpandLimits :: "string \<rightharpoonup> LimitValue"

text \<open>
  \<^verbatim>\<open>FilePickerStatesStore\<close> is a \<^verbatim>\<open>Record<string, FilePickerState>\<close>:
  \<^verbatim>\<open>Object.entries\<close> walks it in insertion order, so it is an association list.
\<close>

type_synonym FilePickerStatesStore = "(CategoryId \<times> FilePickerState) list"

text \<open>\<^verbatim>\<open>Partial<FilePickerState>\<close>, the argument of \<^verbatim>\<open>updatePickerState\<close>.\<close>

record PickerUpdates =
  upd_visible :: "bool option"
  upd_active :: "bool option"
  upd_fileCaret :: "int option"
  upd_dirExpandLimits :: "(string \<rightharpoonup> LimitValue) option"

record FilePickerConfig =
  results :: "ScanResult list"
  categoriesWithFileSelection :: "CategoryId set"

record FilePickerResult =
  res_selectedCategories :: "CategoryId set"
  res_selectedFilesByCategory :: "CategoryId \<rightharpoonup> string set"

text \<open>
  The prompt's \<^verbatim>\<open>useState\<close> cells. \<^verbatim>\<open>copyStatus\<close> and the clipboard timer are set
  only from the promise of \<^verbatim>\<open>copyToClipboard\<close> and are not part of the state here.
\<close>

record PickerState =
  activePane :: Pane
  categoryCaret :: int
  selectedCategories :: "CategoryId set"
  selectedFilesByCategory :: "CategoryId \<rightharpoonup> string set"
  categoryFilePickerStates :: FilePickerStatesStore

datatype Key =
  KeyEnter | KeyUp | KeyDown | KeySpace | KeyA | KeyI | KeyD | KeyC | KeyM | KeyH
  | KeyRight | KeyLeft | KeyBackspace | KeyOther

datatype error = TypeError

datatype outcome = Done FilePickerResult | Next PickerState

definition FILES_PAGE_SIZE :: int where
  "FILES_PAGE_SIZE = 6"

definition DIR_VIS_CHILD_LIMIT :: int where
  "DIR_VIS_CHILD_LIMIT = 5"

definition EXPAND_INCREMENT :: int where
  "EXPAND_INCREMENT = 10"

definition DEFAULT_PICKER_STATE :: FilePickerState where
  "DEFAULT_PICKER_STATE =
     \<lparr>visible = False, active = False, fileCaret = 0, dirExpandLimits = Map.empty\<rparr>"

definition initialState :: PickerState where
  "initialState = \<lparr>activePane = Categories, categoryCaret = 0, selectedCategories = {},
     selectedFilesByCategory = Map.empty, categoryFilePickerStates = []\<rparr>"

definition result_id :: "ScanResult \<Rightarrow> CategoryId" where
  "result_id r = cat_id (category r)"

definition item_paths :: "ScanResult \<Rightarrow> string list" where
  "item_paths r = map item_path (items r)"

text \<open>\<^verbatim>\<open>{ ...store, [key]: value }\<close>: an existing key keeps its place, a new one is appended.\<close>

fun store_put :: "FilePickerStatesStore \<Rightarrow> CategoryId \<Rightarrow> FilePickerState
    \<Rightarrow> FilePickerStatesStore" where
  "store_put [] key v = [(key, v)]"
| "store_put ((k, e) # rest) key v =
     (if k = key then (k, v) # rest else (k, e) # store_put rest key v)"

definition getPickerState :: "FilePickerStatesStore \<Rightarrow> CategoryId \<Rightarrow> FilePickerState" where
  "getPickerState store categoryId =
     (case map_of store categoryId of None \<Rightarrow> DEFAULT_PICKER_STATE | Some existing \<Rightarrow> existing)"

text \<open>
  \<^verbatim>\<open>updatePickerState\<close> returns the store it hands to \<^verbatim>\<open>setCategoryFilePickerStates\<close>.
  It reads the store of the current render, so of several calls in one key handler the last
  one decides the next store.
\<close>

definition updatePickerState ::
  "FilePickerStatesStore \<Rightarrow> CategoryId \<Rightarrow> PickerUpdates \<Rightarrow> FilePickerStatesStore" where
  "updatePickerState store categoryId updates =
     (let current = getPickerState store categoryId;
          nextState = \<lparr>
            visible = (case upd_visible updates of Some b \<Rightarrow> b | None \<Rightarrow> visible current),
            active = (case upd_active updates of Some b \<Rightarrow> b | None \<Rightarrow> active current),
            fileCaret = (case upd_fileCaret updates of Some c \<Rightarrow> c | None \<Rightarrow> fileCaret current),
            dirExpandLimits = (case upd_dirExpandLimits updates of
                                 Some l \<Rightarrow> l | None \<Rightarrow> dirExpandLimits current)\<rparr>
      in store_put store categoryId nextState)"

definition no_updates :: PickerUpdates where
  "no_updates = \<lparr>upd_visible = None, upd_active = None, upd_fileCaret = None,
     upd_dirExpandLimits = None\<rparr>"

definition setActiveCategory ::
  "FilePickerStatesStore \<Rightarrow> CategoryId option \<Rightarrow> FilePickerStatesStore" where
  "setActiveCategory store categoryId =
     (let next = map (\<lambda>(key, state). (key, state\<lparr>active := False\<rparr>)) store
      in case categoryId of
           None \<Rightarrow> next
         | Some c \<Rightarrow> store_put next c ((getPickerState store c)\<lparr>active := True, visible := True\<rparr>))"

definition getActiveCategory :: "FilePickerStatesStore \<Rightarrow> CategoryId option" where
  "getActiveCategory store =
     (case find (\<lambda>(key, state). active state) store of
        Some (key, state) \<Rightarrow> Some key
      | None \<Rightarrow> None)"

definition allGroupedFilesByCategory ::
  "FilePickerConfig \<Rightarrow> FilePickerStatesStore \<Rightarrow> (CategoryId \<rightharpoonup> GroupedFileDisplay list)" where
  "allGroupedFilesByCategory cfg store =
     fold (\<lambda>result grouped.
        if result_id result \<in> categoriesWithFileSelection cfg
        then grouped(result_id result \<mapsto>
               groupFilesByDirectory (items result)
                 (dirExpandLimits (getPickerState store (result_id result))) 5)
        else grouped)
       (results cfg) Map.empty"

text \<open>
  What one run of the prompt function computes before it registers the key handler.
  \<^verbatim>\<open>results[categoryCaret]\<close> is read without a guard and \<^verbatim>\<open>currentResult.category\<close>
  throws on \<^verbatim>\<open>undefined\<close>.
\<close>

record View =
  allGrouped :: "CategoryId \<rightharpoonup> GroupedFileDisplay list"
  activeCategory :: "CategoryId option"
  currentResult :: ScanResult
  canShowFiles :: bool
  activeGroupedFiles :: "GroupedFileDisplay list"

definition render :: "FilePickerConfig \<Rightarrow> PickerState \<Rightarrow> error + View" where
  "render cfg s =
     (let grouped = allGroupedFilesByCategory cfg (categoryFilePickerStates s);
          activeCat = getActiveCategory (categoryFilePickerStates s)
      in case at (results cfg) (categoryCaret s) of
           None \<Rightarrow> Inl TypeError
         | Some cur \<Rightarrow> Inr \<lparr>
             allGrouped = grouped,
             activeCategory = activeCat,
             currentResult = cur,
             canShowFiles = (result_id cur \<in> categoriesWithFileSelection cfg),
             activeGroupedFiles =
               (case activeCat of
                  None \<Rightarrow> []
                | Some a \<Rightarrow> (case grouped a of None \<Rightarrow> [] | Some rows \<Rightarrow> rows))\<rparr>)"

text \<open>
  The rest of the render builds the lines to draw. For a category whose files are shown it
  reads \<^verbatim>\<open>filesToDisplay[j]\<close> for \<^verbatim>\<open>fileStart <= j < fileEnd\<close> only: a window of
  \<^verbatim>\<open>FILES_PAGE_SIZE\<close> rows, centred on the caret when the category is active.
\<close>

definition fileStart :: "bool \<Rightarrow> int \<Rightarrow> int \<Rightarrow> int" where
  "fileStart isThisPickerActive caret len =
     (if isThisPickerActive
      then max 0 (min (caret - FILES_PAGE_SIZE div 2) (len - FILES_PAGE_SIZE))
      else 0)"

definition fileEnd :: "int \<Rightarrow> int \<Rightarrow> int" where
  "fileEnd len start = min len (start + FILES_PAGE_SIZE)"

text \<open>\<^verbatim>\<open>!rows[i]?.selectable\<close> is true for a missing row.\<close>

definition row_selectable :: "GroupedFileDisplay option \<Rightarrow> bool" where
  "row_selectable r = (case r of None \<Rightarrow> False | Some row \<Rightarrow> selectable row)"

text \<open>A \<^verbatim>\<open>directoryKey\<close> is used only when it is truthy: present and not the empty string.\<close>

definition truthy_key :: "GroupedFileDisplay option \<Rightarrow> string option" where
  "truthy_key r =
     (case r of
        None \<Rightarrow> None
      | Some row \<Rightarrow> (case directoryKey row of
                       None \<Rightarrow> None
                     | Some k \<Rightarrow> (if k = [] then None else Some k)))"

function skip_backward :: "GroupedFileDisplay list \<Rightarrow> int \<Rightarrow> int" where
  "skip_backward rows c =
     (if c \<ge> 0 \<and> c < int (length rows) \<and> \<not> row_selectable (at rows c)
      then skip_backward rows (c - 1) else c)"
  by pat_completeness auto
termination
  by (relation "measure (\<lambda>(rows, c). nat (c + 1))") auto

function skip_forward :: "GroupedFileDisplay list \<Rightarrow> int \<Rightarrow> int" where
  "skip_forward rows c =
     (if c < int (length rows) \<and> \<not> row_selectable (at rows c)
      then skip_forward rows (c + 1) else c)"
  by pat_completeness auto
termination
  by (relation "measure (\<lambda>(rows, c). nat (int (length rows) - c))") auto

declare skip_backward.simps [simp del]
declare skip_forward.simps [simp del]

subsection \<open>Key handlers, categories pane\<close>

definition set_visible :: "bool \<Rightarrow> PickerUpdates" where
  "set_visible b = no_updates\<lparr>upd_visible := Some b\<rparr>"

definition set_fileCaret :: "int \<Rightarrow> PickerUpdates" where
  "set_fileCaret c = no_updates\<lparr>upd_fileCaret := Some c\<rparr>"

definition set_dirExpandLimits :: "(string \<rightharpoonup> LimitValue) \<Rightarrow> PickerUpdates" where
  "set_dirExpandLimits l = no_updates\<lparr>upd_dirExpandLimits := Some l\<rparr>"

definition categories_up :: "PickerState \<Rightarrow> PickerState" where
  "categories_up s = s\<lparr>categoryCaret := max 0 (categoryCaret s - 1)\<rparr>"

definition categories_down :: "FilePickerConfig \<Rightarrow> PickerState \<Rightarrow> PickerState" where
  "categories_down cfg s =
     s\<lparr>categoryCaret := min (int (length (results cfg)) - 1) (categoryCaret s + 1)\<rparr>"

definition categories_space :: "FilePickerConfig \<Rightarrow> View \<Rightarrow> PickerState \<Rightarrow> PickerState" where
  "categories_space cfg v s =
     (let currentCategory = result_id (currentResult v);
          fileSel = currentCategory \<in> categoriesWithFileSelection cfg;
          store = categoryFilePickerStates s
      in if currentCategory \<in> selectedCategories s
         then s\<lparr>selectedCategories := selectedCategories s - {currentCategory},
                selectedFilesByCategory :=
                  (if fileSel then (selectedFilesByCategory s)(currentCategory \<mapsto> {})
                   else selectedFilesByCategory s),
                categoryFilePickerStates :=
                  (if fileSel then updatePickerState store currentCategory (set_visible False)
                   else store)\<rparr>
         else s\<lparr>selectedCategories := insert currentCategory (selectedCategories s),
                selectedFilesByCategory :=
                  (if fileSel
                   then (case find (\<lambda>r. result_id r = currentCategory) (results cfg) of
                           Some categoryResult \<Rightarrow>
                             (selectedFilesByCategory s)
                               (currentCategory \<mapsto> set (item_paths categoryResult))
                         | None \<Rightarrow> selectedFilesByCategory s)
                   else selectedFilesByCategory s),
                categoryFilePickerStates :=
                  (if fileSel then updatePickerState store currentCategory (set_visible True)
                   else store)\<rparr>)"

definition categories_a :: "FilePickerConfig \<Rightarrow> PickerState \<Rightarrow> PickerState" where
  "categories_a cfg s =
     (let allCategories = map result_id (results cfg);
          allSelected = list_all (\<lambda>c. c \<in> selectedCategories s) allCategories;
          store = categoryFilePickerStates s
      in if allSelected
         then s\<lparr>selectedCategories := {}, selectedFilesByCategory := Map.empty,
                categoryFilePickerStates := []\<rparr>
         else s\<lparr>selectedCategories := set allCategories,
                selectedFilesByCategory :=
                  fold (\<lambda>result newFileSelections.
                          if result_id result \<in> categoriesWithFileSelection cfg
                          then newFileSelections(result_id result \<mapsto> set (item_paths result))
                          else newFileSelections)
                    (results cfg) Map.empty,
                categoryFilePickerStates :=
                  fold (\<lambda>result next.
                          if result_id result \<in> categoriesWithFileSelection cfg
                          then updatePickerState store (result_id result) (set_visible True)
                          else next)
                    (results cfg) store\<rparr>)"

definition invert_category ::
  "FilePickerConfig \<Rightarrow> FilePickerStatesStore \<Rightarrow> ScanResult
   \<Rightarrow> CategoryId set \<times> (CategoryId \<rightharpoonup> string set) \<times> FilePickerStatesStore
   \<Rightarrow> CategoryId set \<times> (CategoryId \<rightharpoonup> string set) \<times> FilePickerStatesStore" where
  "invert_category cfg store result acc =
     (case acc of (newSelected, newFileSelections, next) \<Rightarrow>
        let c = result_id result; fileSel = c \<in> categoriesWithFileSelection cfg
        in if c \<in> newSelected
           then (newSelected - {c},
                 (if fileSel then newFileSelections(c := None) else newFileSelections),
                 (if fileSel then updatePickerState store c (set_visible False) else next))
           else (insert c newSelected,
                 (if fileSel then newFileSelections(c \<mapsto> set (item_paths result))
                  else newFileSelections),
                 (if fileSel then updatePickerState store c (set_visible True) else next)))"

definition categories_i :: "FilePickerConfig \<Rightarrow> PickerState \<Rightarrow> PickerState" where
  "categories_i cfg s =
     (case fold (invert_category cfg (categoryFilePickerStates s)) (results cfg)
             (selectedCategories s, selectedFilesByCategory s, categoryFilePickerStates s) of
        (newSelected, newFileSelections, next) \<Rightarrow>
          s\<lparr>selectedCategories := newSelected, selectedFilesByCategory := newFileSelections,
            categoryFilePickerStates := next\<rparr>)"

definition categories_right :: "View \<Rightarrow> PickerState \<Rightarrow> PickerState" where
  "categories_right v s =
     (let cur = result_id (currentResult v); store = categoryFilePickerStates s
      in if canShowFiles v \<and> allGrouped v cur \<noteq> None
         then
           (let groupedFiles = (case allGrouped v cur of None \<Rightarrow> [] | Some rows \<Rightarrow> rows)
            in if length groupedFiles > 0
               then
                 (let base = getPickerState store cur;
                      initialCaret =
                        (if fileCaret base \<ge> int (length groupedFiles)
                            \<or> \<not> row_selectable (at groupedFiles (fileCaret base))
                         then skip_forward groupedFiles 0 else fileCaret base);
                      next = map (\<lambda>(k, state). (k, state\<lparr>active := False\<rparr>)) store
                  in s\<lparr>categoryFilePickerStates :=
                         store_put next cur
                           (base\<lparr>active := True, visible := True,
                              fileCaret := (if initialCaret < int (length groupedFiles)
                                            then initialCaret else 0)\<rparr>),
                       activePane := Files\<rparr>)
               else s)
         else s)"

subsection \<open>Key handlers, files pane\<close>

definition current_files :: "PickerState \<Rightarrow> CategoryId \<Rightarrow> string set" where
  "current_files s a = (case selectedFilesByCategory s a of None \<Rightarrow> {} | Some fs \<Rightarrow> fs)"

definition active_caret :: "PickerState \<Rightarrow> CategoryId \<Rightarrow> int" where
  "active_caret s a = fileCaret (getPickerState (categoryFilePickerStates s) a)"

definition files_up :: "View \<Rightarrow> CategoryId \<Rightarrow> PickerState \<Rightarrow> PickerState" where
  "files_up v a s =
     (let newCaret = skip_backward (activeGroupedFiles v) (active_caret s a - 1)
      in if newCaret \<ge> 0 \<and> newCaret < int (length (activeGroupedFiles v))
         then s\<lparr>categoryFilePickerStates :=
                  updatePickerState (categoryFilePickerStates s) a (set_fileCaret newCaret)\<rparr>
         else s)"

definition files_down :: "View \<Rightarrow> CategoryId \<Rightarrow> PickerState \<Rightarrow> PickerState" where
  "files_down v a s =
     (let newCaret = skip_forward (activeGroupedFiles v) (active_caret s a + 1)
      in if newCaret < int (length (activeGroupedFiles v))
         then s\<lparr>categoryFilePickerStates :=
                  updatePickerState (categoryFilePickerStates s) a (set_fileCaret newCaret)\<rparr>
         else s)"

definition files_space :: "View \<Rightarrow> CategoryId \<Rightarrow> PickerState \<Rightarrow> PickerState" where
  "files_space v a s =
     (case at (activeGroupedFiles v) (active_caret s a) of
        None \<Rightarrow> s
      | Some currentFile \<Rightarrow>
          if selectable currentFile
          then
            (case row_item currentFile of
               None \<Rightarrow> s
             | Some it \<Rightarrow>
                 (let currentFiles = current_files s a;
                      newSelected =
                        (if item_path it \<in> currentFiles then currentFiles - {item_path it}
                         else insert (item_path it) currentFiles);
                      newCategories =
                        (if item_path it \<in> currentFiles
                         then (if newSelected = {} then selectedCategories s - {a}
                               else selectedCategories s)
                         else insert a (selectedCategories s))
                  in s\<lparr>selectedCategories := newCategories,
                       selectedFilesByCategory := (selectedFilesByCategory s)(a \<mapsto> newSelected)\<rparr>))
          else s)"

definition files_a :: "FilePickerConfig \<Rightarrow> CategoryId \<Rightarrow> PickerState \<Rightarrow> PickerState" where
  "files_a cfg a s =
     (case find (\<lambda>r. result_id r = a) (results cfg) of
        None \<Rightarrow> s
      | Some categoryResult \<Rightarrow>
          (let currentFiles = current_files s a;
               allFiles = item_paths categoryResult;
               allSelected = list_all (\<lambda>p. p \<in> currentFiles) allFiles;
               newSelected =
                 (if allSelected then currentFiles - set allFiles else currentFiles \<union> set allFiles);
               newCategories =
                 (if allSelected
                  then (if newSelected = {} then selectedCategories s - {a}
                        else selectedCategories s)
                  else insert a (selectedCategories s))
           in s\<lparr>selectedCategories := newCategories,
                selectedFilesByCategory := (selectedFilesByCategory s)(a \<mapsto> newSelected)\<rparr>))"

definition dir_files :: "GroupedFileDisplay list \<Rightarrow> GroupedFileDisplay \<Rightarrow> string list" where
  "dir_files rows currentFile =
     List.map_filter
       (\<lambda>f. if selectable f \<and> directoryKey f = directoryKey currentFile
            then map_option item_path (row_item f) else None)
       rows"

definition files_d :: "View \<Rightarrow> CategoryId \<Rightarrow> PickerState \<Rightarrow> PickerState" where
  "files_d v a s =
     (case at (activeGroupedFiles v) (active_caret s a) of
        None \<Rightarrow> s
      | Some currentFile \<Rightarrow>
          if selectable currentFile
          then
            (let currentFiles = current_files s a;
                 dirFiles = dir_files (activeGroupedFiles v) currentFile;
                 allDirSelected = list_all (\<lambda>p. p \<noteq> [] \<and> p \<in> currentFiles) dirFiles;
                 newSelected =
                   (if allDirSelected then currentFiles - set dirFiles
                    else currentFiles \<union> set dirFiles)
             in s\<lparr>selectedFilesByCategory := (selectedFilesByCategory s)(a \<mapsto> newSelected)\<rparr>)
          else s)"

definition invert_path :: "string \<Rightarrow> string set \<times> bool \<Rightarrow> string set \<times> bool" where
  "invert_path p acc =
     (case acc of (newSelected, hasAnySelected) \<Rightarrow>
        if p \<in> newSelected then (newSelected - {p}, hasAnySelected)
        else (insert p newSelected, True))"

definition files_i :: "FilePickerConfig \<Rightarrow> CategoryId \<Rightarrow> PickerState \<Rightarrow> PickerState" where
  "files_i cfg a s =
     (case find (\<lambda>r. result_id r = a) (results cfg) of
        None \<Rightarrow> s
      | Some categoryResult \<Rightarrow>
          (case fold invert_path (item_paths categoryResult) (current_files s a, False) of
             (newSelected, hasAnySelected) \<Rightarrow>
               s\<lparr>selectedCategories :=
                    (if hasAnySelected then insert a (selectedCategories s)
                     else if newSelected = {} then selectedCategories s - {a}
                     else selectedCategories s),
                  selectedFilesByCategory := (selectedFilesByCategory s)(a \<mapsto> newSelected)\<rparr>))"

text \<open>
  \<^verbatim>\<open>(pickerState.dirExpandLimits[key] ?? DIR_VIS_CHILD_LIMIT) + EXPAND_INCREMENT\<close>. The
  record is a plain object: an own number is incremented; an own string is extended by
  \<^verbatim>\<open>"10"\<close>; with no own property, a key that names a member of \<^verbatim>\<open>Object.prototype\<close>
  reads that member, which is not nullish, and adding a number to it makes a string; any other
  key reads \<^verbatim>\<open>undefined\<close> and the default is taken.
\<close>

definition expanded_limit :: "(string \<rightharpoonup> LimitValue) \<Rightarrow> string \<Rightarrow> LimitValue" where
  "expanded_limit limits k =
     (case limits k of
        Some (NumberLimit n) \<Rightarrow> NumberLimit (n + EXPAND_INCREMENT)
      | Some StringLimit \<Rightarrow> StringLimit
      | None \<Rightarrow>
          if k \<in> set object_prototype_keys then StringLimit
          else NumberLimit (DIR_VIS_CHILD_LIMIT + EXPAND_INCREMENT))"

definition expand_dir :: "CategoryId \<Rightarrow> PickerState \<Rightarrow> string \<Rightarrow> PickerState" where
  "expand_dir a s k =
     (let pickerState = getPickerState (categoryFilePickerStates s) a;
          newLimits = (dirExpandLimits pickerState)(k \<mapsto> expanded_limit (dirExpandLimits pickerState) k)
      in s\<lparr>categoryFilePickerStates :=
             updatePickerState (categoryFilePickerStates s) a (set_dirExpandLimits newLimits)\<rparr>)"

definition files_m :: "View \<Rightarrow> CategoryId \<Rightarrow> PickerState \<Rightarrow> PickerState" where
  "files_m v a s =
     (case truthy_key (at (activeGroupedFiles v) (active_caret s a)) of
        None \<Rightarrow> s
      | Some k \<Rightarrow> expand_dir a s k)"

definition files_h :: "View \<Rightarrow> CategoryId \<Rightarrow> PickerState \<Rightarrow> PickerState" where
  "files_h v a s =
     (case truthy_key (at (activeGroupedFiles v) (active_caret s a)) of
        None \<Rightarrow> s
      | Some k \<Rightarrow>
          (let pickerState = getPickerState (categoryFilePickerStates s) a;
               newLimits = (dirExpandLimits pickerState)(k \<mapsto> NumberLimit DIR_VIS_CHILD_LIMIT)
           in s\<lparr>categoryFilePickerStates :=
                  updatePickerState (categoryFilePickerStates s) a
                    (set_dirExpandLimits newLimits)\<rparr>))"

definition files_right :: "View \<Rightarrow> CategoryId \<Rightarrow> PickerState \<Rightarrow> PickerState" where
  "files_right v a s =
     (case at (activeGroupedFiles v) (active_caret s a) of
        None \<Rightarrow> s
      | Some currentFile \<Rightarrow>
          if row_type currentFile = ExpandHint
          then (case truthy_key (Some currentFile) of None \<Rightarrow> s | Some k \<Rightarrow> expand_dir a s k)
          else s)"

definition files_back :: "PickerState \<Rightarrow> PickerState" where
  "files_back s =
     s\<lparr>categoryFilePickerStates := setActiveCategory (categoryFilePickerStates s) None,
       activePane := Categories\<rparr>"

subsection \<open>The key handler and the session\<close>

text \<open>
  The \<^verbatim>\<open>c\<close> key only starts the clipboard copy, whose promise sets the status line: it
  changes nothing of the state kept here.
\<close>

definition handle_categories :: "FilePickerConfig \<Rightarrow> View \<Rightarrow> PickerState \<Rightarrow> Key \<Rightarrow> PickerState" where
  "handle_categories cfg v s key =
     (if key = KeyUp then categories_up s
      else if key = KeyDown then categories_down cfg s
      else if key = KeySpace then categories_space cfg v s
      else if key = KeyA then categories_a cfg s
      else if key = KeyI then categories_i cfg s
      else if key = KeyRight then categories_right v s
      else s)"

definition handle_files ::
  "FilePickerConfig \<Rightarrow> View \<Rightarrow> CategoryId \<Rightarrow> PickerState \<Rightarrow> Key \<Rightarrow> PickerState" where
  "handle_files cfg v a s key =
     (if key = KeyUp then files_up v a s
      else if key = KeyDown then files_down v a s
      else if key = KeySpace then files_space v a s
      else if key = KeyA then files_a cfg a s
      else if key = KeyD then files_d v a s
      else if key = KeyI then files_i cfg a s
      else if key = KeyC then s
      else if key = KeyM then files_m v a s
      else if key = KeyH then files_h v a s
      else if key = KeyRight then files_right v a s
      else if key = KeyLeft \<or> key = KeyBackspace then files_back s
      else s)"

definition useKeypress :: "FilePickerConfig \<Rightarrow> View \<Rightarrow> PickerState \<Rightarrow> Key \<Rightarrow> outcome" where
  "useKeypress cfg v s key =
     (if key = KeyEnter
      then Done \<lparr>res_selectedCategories = selectedCategories s,
                 res_selectedFilesByCategory = selectedFilesByCategory s\<rparr>
      else if activePane s = Categories then Next (handle_categories cfg v s key)
      else (case activeCategory v of
              Some a \<Rightarrow> Next (handle_files cfg v a s key)
            | None \<Rightarrow> Next s))"

text \<open>One render followed by one key: the render that throws registers no handler.\<close>

definition step :: "FilePickerConfig \<Rightarrow> PickerState \<Rightarrow> Key \<Rightarrow> error + outcome" where
  "step cfg s key =
     (case render cfg s of
        Inl e \<Rightarrow> Inl e
      | Inr v \<Rightarrow> Inr (useKeypress cfg v s key))"

fun run :: "FilePickerConfig \<Rightarrow> PickerState \<Rightarrow> Key list \<Rightarrow> error + outcome" where
  "run cfg s [] = Inr (Next s)"
| "run cfg s (key # keys) =
     (case step cfg s key of
        Inl e \<Rightarrow> Inl e
      | Inr (Done r) \<Rightarrow> Inr (Done r)
      | Inr (Next s') \<Rightarrow> run cfg s' keys)"

text \<open>The states a session can be in: those some key sequence leads to from the start.\<close>

definition reachable :: "FilePickerConfig \<Rightarrow> PickerState \<Rightarrow> bool" where
  "reachable cfg s = (\<exists>keys. run cfg initialState keys = Inr (Next s))"

section \<open>Specification vocabulary\<close>

text \<open>The parent directory of an item, as the grouper computes it.\<close>

definition item_dir :: "CleanableItem \<Rightarrow> string" where
  "item_dir f = dirname (item_path f)"

text \<open>The elements of a list in the order of their first occurrence.\<close>

fun first_occ :: "'a list \<Rightarrow> 'a list" where
  "first_occ [] = []"
| "first_occ (x # xs) = x # filter (\<lambda>y. y \<noteq> x) (first_occ xs)"

text \<open>The size of the largest item of a directory.\<close>

definition dir_largest :: "CleanableItem list \<Rightarrow> string \<Rightarrow> nat" where
  "dir_largest fs d = Max (set (map item_size (filter (\<lambda>f. item_dir f = d) fs)))"

text \<open>A list in descending order of a key.\<close>

definition desc_by :: "('a \<Rightarrow> nat) \<Rightarrow> 'a list \<Rightarrow> bool" where
  "desc_by k xs = sorted_wrt (\<lambda>a b. k b \<le> k a) xs"

text \<open>The session state after a key sequence, when the session is still running.\<close>

definition is_next :: "error + outcome \<Rightarrow> bool" where
  "is_next r = (case r of Inr (Next s) \<Rightarrow> True | _ \<Rightarrow> False)"

definition state_after :: "FilePickerConfig \<Rightarrow> Key list \<Rightarrow> PickerState" where
  "state_after cfg keys =
     (case run cfg initialState keys of Inr (Next s) \<Rightarrow> s | _ \<Rightarrow> initialState)"

text \<open>Category ids are unique among the scan results.\<close>

definition wf_config :: "FilePickerConfig \<Rightarrow> bool" where
  "wf_config cfg = distinct (map result_id (results cfg))"

text \<open>The paths of all scanned items of a category.\<close>

definition paths_of :: "FilePickerConfig \<Rightarrow> CategoryId \<Rightarrow> string set" where
  "paths_of cfg c =
     (case find (\<lambda>r. result_id r = c) (results cfg) of
        None \<Rightarrow> {}
      | Some r \<Rightarrow> set (item_paths r))"

text \<open>
  What every reachable state satisfies: the category caret is an index of the results, and the
  selected paths of a category are paths of its items.
\<close>

definition caret_ok :: "FilePickerConfig \<Rightarrow> PickerState \<Rightarrow> bool" where
  "caret_ok cfg s =
     (results cfg \<noteq> [] \<longrightarrow> 0 \<le> categoryCaret s \<and> categoryCaret s < int (length (results cfg)))"

definition files_ok :: "FilePickerConfig \<Rightarrow> PickerState \<Rightarrow> bool" where
  "files_ok cfg s = (\<forall>c fs. selectedFilesByCategory s c = Some fs \<longrightarrow> fs \<subseteq> paths_of cfg c)"

definition inv :: "FilePickerConfig \<Rightarrow> PickerState \<Rightarrow> bool" where
  "inv cfg s = (caret_ok cfg s \<and> files_ok cfg s)"

text \<open>
  Every recorded directory limit is a number, and at least the default. It holds at the start,
  and every key keeps it, except an expansion that reads a member of \<^verbatim>\<open>Object.prototype\<close>
  for the current limit.
\<close>

definition limits_ok :: "FilePickerStatesStore \<Rightarrow> bool" where
  "limits_ok store =
     (\<forall>c d l. dirExpandLimits (getPickerState store c) d = Some l \<longrightarrow>
        (\<exists>n. l = NumberLimit n \<and> DIR_VIS_CHILD_LIMIT \<le> n))"

text \<open>
  The caret of the active category references a selectable row of the rows the render shows
  for it. With no active category there is no file caret on screen.
\<close>

definition caret_selectable :: "FilePickerConfig \<Rightarrow> PickerState \<Rightarrow> bool" where
  "caret_selectable cfg s =
     (case render cfg s of
        Inl e \<Rightarrow> False
      | Inr v \<Rightarrow>
          (case activeCategory v of
             None \<Rightarrow> True
           | Some a \<Rightarrow> row_selectable (at (activeGroupedFiles v) (active_caret s a))))"

text \<open>
  The rows of a category as the render computes them from the store (none for a category
  without file selection).
\<close>

definition active_rows_of ::
  "FilePickerConfig \<Rightarrow> FilePickerStatesStore \<Rightarrow> CategoryId \<Rightarrow> GroupedFileDisplay list" where
  "active_rows_of cfg st a =
     (case allGroupedFilesByCategory cfg st a of None \<Rightarrow> [] | Some rows \<Rightarrow> rows)"

text \<open>
  The row at index \<open>c\<close> is one of the first five files of its directory: one of the five rows
  above it is not a file row. (The rows of a directory are its header, its visible files and
  then the expand hint, and only file rows are selectable.)
\<close>

definition within_default_limit :: "GroupedFileDisplay list \<Rightarrow> int \<Rightarrow> bool" where
  "within_default_limit rows c =
     list_ex (\<lambda>j. \<not> row_selectable (at rows (c - j))) [1..DIR_VIS_CHILD_LIMIT]"

text \<open>In the files pane, the caret is on one of the first five files of its directory.\<close>

definition caret_within_default :: "FilePickerConfig \<Rightarrow> PickerState \<Rightarrow> bool" where
  "caret_within_default cfg s =
     (case activePane s of
        Categories \<Rightarrow> True
      | Files \<Rightarrow>
          (case getActiveCategory (categoryFilePickerStates s) of
             None \<Rightarrow> True
           | Some a \<Rightarrow>
               within_default_limit (active_rows_of cfg (categoryFilePickerStates s) a)
                 (active_caret s a)))"

text \<open>
  In the files pane, the key expands the directory of the row under the caret (\<^verbatim>\<open>m\<close> on
  any of its rows, the right arrow on its expand hint), the directory has no recorded limit
  and its key names a member of \<^verbatim>\<open>Object.prototype\<close>: the handler then reads the inherited
  member for the current limit and records a string.
\<close>

definition expands_inherited :: "FilePickerConfig \<Rightarrow> PickerState \<Rightarrow> Key \<Rightarrow> bool" where
  "expands_inherited cfg s key =
     (case activePane s of
        Categories \<Rightarrow> False
      | Files \<Rightarrow>
          (case getActiveCategory (categoryFilePickerStates s) of
             None \<Rightarrow> False
           | Some a \<Rightarrow>
               (case at (active_rows_of cfg (categoryFilePickerStates s) a) (active_caret s a) of
                  None \<Rightarrow> False
                | Some row \<Rightarrow>
                    (key = KeyM \<or> (key = KeyRight \<and> row_type row = ExpandHint))
                    \<and> (case truthy_key (Some row) of
                          None \<Rightarrow> False
                        | Some k \<Rightarrow>
                            dirExpandLimits (getPickerState (categoryFilePickerStates s) a) k
                              = None
                            \<and> k \<in> set object_prototype_keys))))"

text \<open>
  In the category pane, the rows of the category under the category caret, if it has any,
  have a selectable row: the right arrow then finds a row to put the file caret on.
\<close>

definition entry_target :: "FilePickerConfig \<Rightarrow> PickerState \<Rightarrow> bool" where
  "entry_target cfg s =
     (case activePane s of
        Files \<Rightarrow> True
      | Categories \<Rightarrow>
          (case at (results cfg) (categoryCaret s) of
             None \<Rightarrow> True
           | Some r \<Rightarrow>
               active_rows_of cfg (categoryFilePickerStates s) (result_id r) = []
               \<or> list_ex selectable
                    (active_rows_of cfg (categoryFilePickerStates s) (result_id r))))"

text \<open>The file selection that has every item of every category with file selection.\<close>

definition all_files_map :: "FilePickerConfig \<Rightarrow> (CategoryId \<rightharpoonup> string set)" where
  "all_files_map cfg =
     fold (\<lambda>result m.
             if result_id result \<in> categoriesWithFileSelection cfg
             then m(result_id result \<mapsto> set (item_paths result)) else m)
       (results cfg) Map.empty"

text \<open>
  The two end states of the select-all toggle. In the categories pane: nothing selected, or
  every category selected with all its files. In the files pane: the active category not
  selected with an empty recorded file set, or selected with all of its items.
\<close>

definition all_or_nothing :: "FilePickerConfig \<Rightarrow> PickerState \<Rightarrow> bool" where
  "all_or_nothing cfg s =
     (case activePane s of
        Categories \<Rightarrow>
          (selectedCategories s = {} \<and> selectedFilesByCategory s = Map.empty)
          \<or> (selectedCategories s = set (map result_id (results cfg))
              \<and> selectedFilesByCategory s = all_files_map cfg)
      | Files \<Rightarrow>
          (case getActiveCategory (categoryFilePickerStates s) of
             None \<Rightarrow> False
           | Some a \<Rightarrow>
               (case find (\<lambda>r. result_id r = a) (results cfg) of
                  None \<Rightarrow> False
                | Some r \<Rightarrow>
                    (a \<notin> selectedCategories s \<and> selectedFilesByCategory s a = Some {})
                    \<or> (items r \<noteq> [] \<and> a \<in> selectedCategories s
                        \<and> selectedFilesByCategory s a = Some (set (item_paths r))))))"

section \<open>Auxiliary notions for the proofs\<close>

text \<open>What \<^const>\<open>applyExpandLimits\<close> makes of one group.\<close>

definition limited ::
  "(string \<rightharpoonup> LimitValue) \<Rightarrow> int \<Rightarrow> DirectoryGroup \<Rightarrow> LimitedGroup" where
  "limited limits defaultLimit g =
     (let limit = (case limits (group_path g) of
                     Some l \<Rightarrow> l | None \<Rightarrow> NumberLimit defaultLimit)
      in \<lparr>lg_group = g,
          visibleCount = (case limit of
                            NumberLimit n \<Rightarrow> Some (min n (int (length (files g))))
                          | StringLimit \<Rightarrow> None),
          hasMore = (case limit of
                       NumberLimit n \<Rightarrow> int (length (files g)) > n
                     | StringLimit \<Rightarrow> False)\<rparr>)"

text \<open>The caret condition as a function of the store alone.\<close>

definition caret_store :: "FilePickerConfig \<Rightarrow> FilePickerStatesStore \<Rightarrow> bool" where
  "caret_store cfg st =
     (case getActiveCategory st of
        None \<Rightarrow> True
      | Some a \<Rightarrow> row_selectable (at (active_rows_of cfg st a) (fileCaret (getPickerState st a))))"

section \<open>Example sessions\<close>

definition mk_item :: "string \<Rightarrow> nat \<Rightarrow> CleanableItem" where
  "mk_item p n = \<lparr>item_path = p, item_size = n, item_name = p, isDirectory = False\<rparr>"

definition mk_result :: "CategoryId \<Rightarrow> CleanableItem list \<Rightarrow> ScanResult" where
  "mk_result c its =
     \<lparr>category = \<lparr>cat_id = c, cat_name = [], supportsFileSelection = True\<rparr>,
      items = its, totalSize = sum_list (map item_size its)\<rparr>"

text \<open>One directory with six files, one more than the default limit shows.\<close>

definition six_files :: "CleanableItem list" where
  "six_files = [mk_item ''/d/f1'' 60, mk_item ''/d/f2'' 50, mk_item ''/d/f3'' 40,
     mk_item ''/d/f4'' 30, mk_item ''/d/f5'' 20, mk_item ''/d/f6'' 10]"

definition one_category :: FilePickerConfig where
  "one_category = \<lparr>results = [mk_result LargeFiles six_files],
     categoriesWithFileSelection = {LargeFiles}\<rparr>"

text \<open>A relative path in a directory named like a member of \<^verbatim>\<open>Object.prototype\<close>.\<close>

definition prototype_named :: FilePickerConfig where
  "prototype_named = \<lparr>results =
       [mk_result LargeFiles [mk_item ''constructor/f1'' 60, mk_item ''constructor/f2'' 50]],
     categoriesWithFileSelection = {LargeFiles}\<rparr>"

text \<open>Two categories with file selection and one without.\<close>

definition three_categories :: FilePickerConfig where
  "three_categories = \<lparr>results =
       [mk_result LargeFiles [mk_item ''/a/x'' 3, mk_item ''/b/y'' 2],
        mk_result Downloads [mk_item ''/dl/z'' 7],
        mk_result Trash [mk_item ''/t/w'' 1]],
     categoriesWithFileSelection = {LargeFiles, Downloads}\<rparr>"

text \<open>The grouper's own example, the smaller file of a directory first.\<close>

definition grouper_example :: "CleanableItem list" where
  "grouper_example = [mk_item ''/home/Downloads/small.zip'' 100,
     mk_item ''/home/Documents/doc.pdf'' 5000, mk_item ''/home/Downloads/large.zip'' 10000]"

section \<open>The directory grouper orders by size\<close>

lemma set_sort_insert: "set (sort_insert cmp x xs) = insert x (set xs)"
  by (induction xs) auto

lemma mset_sort_insert: "mset (sort_insert cmp x xs) = add_mset x (mset xs)"
  by (induction xs) auto

lemma mset_js_sort: "mset (js_sort cmp xs) = mset xs"
  by (induction xs) (auto simp: js_sort_def mset_sort_insert)

lemma set_js_sort: "set (js_sort cmp xs) = set xs"
  by (metis mset_js_sort set_mset_mset)

lemma desc_sort_insert:
  assumes "\<forall>a b. (cmp a b \<le> 0) = (k b \<le> k a)"
  shows "desc_by k xs \<Longrightarrow> desc_by k (sort_insert cmp x xs)"
  using assms by (induction xs) (auto simp: desc_by_def set_sort_insert)

lemma desc_js_sort:
  assumes "\<forall>a b. (cmp a b \<le> 0) = (k b \<le> k a)"
  shows "desc_by k (js_sort cmp xs)"
proof (induction xs)
  case Nil
  show ?case by (simp add: js_sort_def desc_by_def)
next
  case (Cons x xs)
  then show ?case
    using desc_sort_insert [OF assms] by (simp add: js_sort_def)
qed

lemma stable_sort_insert:
  fixes k :: "'a \<Rightarrow> nat"
  assumes "\<forall>a b. (cmp a b \<le> 0) = (k b \<le> k a)"
  shows "desc_by k xs \<Longrightarrow>
    filter (\<lambda>y. k y = v) (sort_insert cmp x xs) = filter (\<lambda>y. k y = v) (x # xs)"
  using assms by (induction xs) (auto simp: desc_by_def)

lemma stable_js_sort:
  fixes k :: "'a \<Rightarrow> nat"
  assumes "\<forall>a b. (cmp a b \<le> 0) = (k b \<le> k a)"
  shows "filter (\<lambda>y. k y = v) (js_sort cmp xs) = filter (\<lambda>y. k y = v) xs"
proof (induction xs)
  case Nil
  show ?case by (simp add: js_sort_def)
next
  case (Cons x xs)
  have "filter (\<lambda>y. k y = v) (js_sort cmp (x # xs))
      = filter (\<lambda>y. k y = v) (x # js_sort cmp xs)"
    using stable_sort_insert [OF assms desc_js_sort [OF assms]]
    by (simp add: js_sort_def)
  then show ?case using Cons by simp
qed

lemma by_size_desc_le: "\<forall>a b. (by_size_desc a b \<le> 0) = (item_size b \<le> item_size a)"
  by (simp add: by_size_desc_def)

lemma by_largest_desc_le: "\<forall>a b. (by_largest_desc a b \<le> 0) = (largestFileSize b \<le> largestFileSize a)"
  by (simp add: by_largest_desc_def)

lemma desc_by_hd_Max:
  "desc_by k (x # xs) \<Longrightarrow> k x = Max (k ` set (x # xs))"
  by (auto simp: desc_by_def intro!: Max_eqI [symmetric])

lemma map_fst_push_file:
  "map fst (push_file d f gs) = (if d \<in> fst ` set gs then map fst gs else map fst gs @ [d])"
  by (induction d f gs rule: push_file.induct) (auto simp: image_iff)

lemma map_of_push_file:
  "map_of (push_file d f gs) =
     (map_of gs)(d \<mapsto> (case map_of gs d of None \<Rightarrow> [f] | Some old \<Rightarrow> old @ [f]))"
  by (induction d f gs rule: push_file.induct) (auto simp: fun_eq_iff)

lemma keys_fold_push:
  "map fst (fold (\<lambda>f groups. push_file (dirname (item_path f)) f groups) fs gs) =
     map fst gs @ filter (\<lambda>d. d \<notin> fst ` set gs) (first_occ (map item_dir fs))"
proof (induction fs arbitrary: gs)
  case Nil
  show ?case by simp
next
  case (Cons f fs)
  have set_push: "fst ` set (push_file (item_dir f) f gs) = insert (item_dir f) (fst ` set gs)"
    using map_fst_push_file [of "item_dir f" f gs]
    by (metis (no_types, lifting) insert_absorb list.set_map set_append list.simps(15) Un_insert_right sup_bot.right_neutral empty_set)
  show ?case
  proof (cases "item_dir f \<in> fst ` set gs")
    case True
    then show ?thesis
      using Cons [of "push_file (item_dir f) f gs"] set_push
      by (simp add: map_fst_push_file item_dir_def [symmetric] insert_absorb)
        (rule filter_cong, auto)
  next
    case False
    then show ?thesis
      using Cons [of "push_file (item_dir f) f gs"] set_push
      by (simp add: map_fst_push_file item_dir_def [symmetric])
  qed
qed

lemma vals_fold_push:
  "map_of (fold (\<lambda>f groups. push_file (dirname (item_path f)) f groups) fs gs) d =
     (case map_of gs d of
        None \<Rightarrow> (if filter (\<lambda>f. item_dir f = d) fs = [] then None
                 else Some (filter (\<lambda>f. item_dir f = d) fs))
      | Some old \<Rightarrow> Some (old @ filter (\<lambda>f. item_dir f = d) fs))"
proof (induction fs arbitrary: gs)
  case Nil
  show ?case by (simp split: option.splits)
next
  case (Cons f fs)
  show ?case
    using Cons [of "push_file (item_dir f) f gs"]
    by (auto simp: map_of_push_file item_dir_def [symmetric] split: option.splits)
qed

lemma distinct_first_occ: "distinct (first_occ xs)"
  by (induction xs) auto

lemma set_first_occ: "set (first_occ xs) = set xs"
  by (induction xs) auto

lemma keys_group_entries: "map fst (group_entries fs) = first_occ (map item_dir fs)"
  using keys_fold_push [of fs "[]"] by (simp add: group_entries_def)

lemma entry_group_entries:
  assumes "(d, xs) \<in> set (group_entries fs)"
  shows "xs = filter (\<lambda>f. item_dir f = d) fs \<and> xs \<noteq> []"
proof -
  have "distinct (map fst (group_entries fs))"
    by (simp add: keys_group_entries distinct_first_occ)
  then have "map_of (group_entries fs) d = Some xs"
    using assms by simp
  then show ?thesis
    using vals_fold_push [of fs "[]" d]
    by (simp add: group_entries_def split: if_splits)
qed

lemma make_group_entry:
  assumes "(d, xs) \<in> set (group_entries fs)"
  shows "group_path (make_group (d, xs)) = d"
    and "files (make_group (d, xs)) = js_sort by_size_desc (filter (\<lambda>f. item_dir f = d) fs)"
    and "files (make_group (d, xs)) \<noteq> []"
    and "largestFileSize (make_group (d, xs)) = Max (item_size ` set (files (make_group (d, xs))))"
    and "largestFileSize (make_group (d, xs)) = dir_largest fs d"
proof -
  have xs: "xs = filter (\<lambda>f. item_dir f = d) fs" "xs \<noteq> []"
    using entry_group_entries [OF assms] by blast+
  let ?s = "js_sort by_size_desc xs"
  show "group_path (make_group (d, xs)) = d"
    by (simp add: make_group_def Let_def)
  show fl: "files (make_group (d, xs)) = js_sort by_size_desc (filter (\<lambda>f. item_dir f = d) fs)"
    using xs by (simp add: make_group_def Let_def)
  have ne: "?s \<noteq> []"
    using xs(2) mset_js_sort [of by_size_desc xs] by (metis mset_zero_iff)
  then show "files (make_group (d, xs)) \<noteq> []"
    by (simp add: make_group_def Let_def)
  obtain y ys where s: "?s = y # ys"
    using ne by (cases ?s) auto
  have "desc_by item_size (y # ys)"
    using desc_js_sort [OF by_size_desc_le, of xs] s by simp
  then have "item_size y = Max (item_size ` set (y # ys))"
    by (rule desc_by_hd_Max)
  then show mx: "largestFileSize (make_group (d, xs)) = Max (item_size ` set (files (make_group (d, xs))))"
    using s by (simp add: make_group_def Let_def)
  show "largestFileSize (make_group (d, xs)) = dir_largest fs d"
    unfolding mx fl by (simp add: set_js_sort dir_largest_def)
qed

lemma groupByDirectory_member:
  assumes "g \<in> set (groupByDirectory fs)"
  shows "\<exists>d xs. (d, xs) \<in> set (group_entries fs) \<and> g = make_group (d, xs)"
  using assms by (auto simp: groupByDirectory_def set_js_sort)

text \<open>
  Claim C9. For every list of items, \<^const>\<open>groupByDirectory\<close> returns the directory groups
  in descending order of their largest member's size, and that size is the maximum of the
  group's item sizes; the items of each group are in descending order of size; items of equal
  size keep the order they have in the input, and so do directories whose largest sizes are
  equal, in the order in which the directories are first met.
\<close>

theorem groupByDirectory_ordering:
  "desc_by largestFileSize (groupByDirectory fs) \<and>
   (\<forall>g \<in> set (groupByDirectory fs).
      files g \<noteq> [] \<and>
      largestFileSize g = Max (item_size ` set (files g)) \<and>
      desc_by item_size (files g) \<and>
      (\<forall>k. filter (\<lambda>f. item_size f = k) (files g) =
           filter (\<lambda>f. item_size f = k) (filter (\<lambda>f. item_dir f = group_path g) fs))) \<and>
   (\<forall>k. map group_path (filter (\<lambda>g. largestFileSize g = k) (groupByDirectory fs)) =
        filter (\<lambda>d. dir_largest fs d = k) (first_occ (map item_dir fs)))"
proof (intro conjI ballI allI)
  show "desc_by largestFileSize (groupByDirectory fs)"
    unfolding groupByDirectory_def by (rule desc_js_sort [OF by_largest_desc_le])
next
  fix g assume "g \<in> set (groupByDirectory fs)"
  then obtain d xs where e: "(d, xs) \<in> set (group_entries fs)" and g: "g = make_group (d, xs)"
    using groupByDirectory_member by blast
  show "files g \<noteq> []"
    unfolding g by (rule make_group_entry(3) [OF e])
  show "largestFileSize g = Max (item_size ` set (files g))"
    unfolding g by (rule make_group_entry(4) [OF e])
  show "desc_by item_size (files g)"
    unfolding g make_group_entry(2) [OF e] by (rule desc_js_sort [OF by_size_desc_le])
  fix k
  show "filter (\<lambda>f. item_size f = k) (files g) =
        filter (\<lambda>f. item_size f = k) (filter (\<lambda>f. item_dir f = group_path g) fs)"
    unfolding g make_group_entry(1,2) [OF e] by (rule stable_js_sort [OF by_size_desc_le])
next
  fix k
  let ?es = "group_entries fs"
  have "filter (\<lambda>g. largestFileSize g = k) (groupByDirectory fs)
      = filter (\<lambda>g. largestFileSize g = k) (map make_group ?es)"
    unfolding groupByDirectory_def by (rule stable_js_sort [OF by_largest_desc_le])
  also have "\<dots> = map make_group (filter (\<lambda>e. largestFileSize (make_group e) = k) ?es)"
    by (simp add: filter_map comp_def)
  also have "filter (\<lambda>e. largestFileSize (make_group e) = k) ?es
      = filter (\<lambda>e. dir_largest fs (fst e) = k) ?es"
    by (rule filter_cong) (auto simp: make_group_entry(5))
  finally have "map group_path (filter (\<lambda>g. largestFileSize g = k) (groupByDirectory fs))
      = map fst (filter (\<lambda>e. dir_largest fs (fst e) = k) ?es)"
    by (simp add: make_group_def Let_def comp_def)
  also have "\<dots> = filter (\<lambda>d. dir_largest fs d = k) (map fst ?es)"
    by (simp add: filter_map comp_def)
  finally show "map group_path (filter (\<lambda>g. largestFileSize g = k) (groupByDirectory fs)) =
        filter (\<lambda>d. dir_largest fs d = k) (first_occ (map item_dir fs))"
    by (simp add: keys_group_entries)
qed

lemma grouper_example_groups:
  "map (\<lambda>g. (group_path g, map item_size (files g), largestFileSize g))
     (groupByDirectory grouper_example) =
   [(''/home/Downloads'', [10000, 100], 10000), (''/home/Documents'', [5000], 5000)]"
  by code_simp

theorem groupByDirectory_ordering_witness:
  "map (\<lambda>g. (group_path g, map item_size (files g), largestFileSize g))
     (groupByDirectory grouper_example) =
     [(''/home/Downloads'', [10000, 100], 10000), (''/home/Documents'', [5000], 5000)] \<and>
   desc_by largestFileSize (groupByDirectory grouper_example) \<and>
   list_all (\<lambda>g. desc_by item_size (files g)) (groupByDirectory grouper_example)"
  using groupByDirectory_ordering [of grouper_example] grouper_example_groups
  by (simp add: list_all_iff)

section \<open>Facts about the store and the session\<close>

lemma at_Some_iff: "at xs i = Some x \<longleftrightarrow> 0 \<le> i \<and> nat i < length xs \<and> xs ! nat i = x"
  by (auto simp: at_def)

lemma at_in_set: "at xs i = Some x \<Longrightarrow> x \<in> set xs"
  by (auto simp: at_Some_iff)

lemma map_of_store_put: "map_of (store_put st k v) = (map_of st)(k \<mapsto> v)"
  by (induction st k v rule: store_put.induct) (auto simp: fun_eq_iff)

lemma getPickerState_store_put:
  "getPickerState (store_put st k v) c = (if c = k then v else getPickerState st c)"
  by (simp add: getPickerState_def map_of_store_put)

lemma getPickerState_update_other:
  "c \<noteq> k \<Longrightarrow> getPickerState (updatePickerState st k u) c = getPickerState st c"
  by (simp add: updatePickerState_def Let_def getPickerState_store_put)

lemma visible_updatePickerState:
  "visible (getPickerState (updatePickerState st k (set_visible b)) k) = b"
  by (simp add: updatePickerState_def Let_def getPickerState_store_put set_visible_def
      no_updates_def)

lemma find_distinct:
  "distinct (map f xs) \<Longrightarrow> x \<in> set xs \<Longrightarrow> find (\<lambda>y. f y = f x) xs = Some x"
  by (induction xs) (auto simp: image_iff)

lemma render_Inr:
  assumes "render cfg s = Inr v"
  shows "at (results cfg) (categoryCaret s) = Some (currentResult v)"
    and "activeCategory v = getActiveCategory (categoryFilePickerStates s)"
    and "allGrouped v = allGroupedFilesByCategory cfg (categoryFilePickerStates s)"
    and "canShowFiles v = (result_id (currentResult v) \<in> categoriesWithFileSelection cfg)"
    and "activeGroupedFiles v =
           (case activeCategory v of
              None \<Rightarrow> []
            | Some a \<Rightarrow> (case allGrouped v a of None \<Rightarrow> [] | Some rows \<Rightarrow> rows))"
  using assms by (auto simp: render_def Let_def split: option.splits)

lemma step_render:
  assumes "render cfg s = Inr v" and "step cfg s key = Inr (Next s')"
  shows "key \<noteq> KeyEnter"
    and "s' = (if activePane s = Categories then handle_categories cfg v s key
               else case activeCategory v of
                      Some a \<Rightarrow> handle_files cfg v a s key
                    | None \<Rightarrow> s)"
  using assms by (auto simp: step_def useKeypress_def split: if_splits option.splits)

lemma step_Next:
  assumes "step cfg s key = Inr (Next s')"
  shows "\<exists>v. render cfg s = Inr v"
  using assms by (auto simp: step_def split: sum.splits)

lemma run_snoc:
  "run cfg s (keys @ [key]) =
     (case run cfg s keys of
        Inl e \<Rightarrow> Inl e
      | Inr (Done r) \<Rightarrow> Inr (Done r)
      | Inr (Next s1) \<Rightarrow> step cfg s1 key)"
  by (induction keys arbitrary: s) (auto split: sum.splits outcome.splits)

lemma step_state_after:
  assumes "is_next (run cfg initialState (keys @ [key]))"
  shows "step cfg (state_after cfg keys) key = Inr (Next (state_after cfg (keys @ [key])))"
  using assms unfolding is_next_def state_after_def run_snoc
  by (auto split: sum.splits outcome.splits)

lemma reachable_state_after:
  assumes "is_next (run cfg initialState keys)"
  shows "reachable cfg (state_after cfg keys)"
  using assms unfolding is_next_def state_after_def reachable_def
  by (auto split: sum.splits outcome.splits)

lemma state_after_Nil: "state_after cfg [] = initialState"
  by (simp add: state_after_def)

lemma render_projr: "\<not> isl (render cfg s) \<Longrightarrow> render cfg s = Inr (projr (render cfg s))"
  by simp

section \<open>Selection commands\<close>

text \<open>
  Claim C1. For every state in the files pane, a press of \<^verbatim>\<open>d\<close> leaves
  \<^const>\<open>selectedCategories\<close> as it was: the directory toggle writes only the selected-file
  set of the active category, whatever that set becomes.
\<close>

theorem dir_toggle_keeps_categories:
  assumes "activePane s = Files" and "step cfg s KeyD = Inr (Next s')"
  shows "selectedCategories s' = selectedCategories s"
proof -
  obtain v where v: "render cfg s = Inr v"
    using step_Next [OF assms(2)] by blast
  show ?thesis
  proof (cases "activeCategory v")
    case None
    then show ?thesis using step_render(2) [OF v assms(2)] assms(1) by simp
  next
    case (Some a)
    then have "s' = files_d v a s"
      using step_render(2) [OF v assms(2)] assms(1) by (simp add: handle_files_def)
    then show ?thesis
      by (simp add: files_d_def Let_def split: option.splits)
  qed
qed

theorem dir_toggle_keeps_categories_witness:
  "activePane (state_after one_category [KeyRight]) = Files \<and>
   selectedFilesByCategory (state_after one_category [KeyRight, KeyD]) LargeFiles =
     Some {''/d/f1'', ''/d/f2'', ''/d/f3'', ''/d/f4'', ''/d/f5''} \<and>
   selectedCategories (state_after one_category [KeyRight, KeyD]) =
     selectedCategories (state_after one_category [KeyRight])"
proof -
  have p: "activePane (state_after one_category [KeyRight]) = Files"
    by code_simp
  have n: "is_next (run one_category initialState ([KeyRight] @ [KeyD]))"
    by code_simp
  have f: "selectedFilesByCategory (state_after one_category [KeyRight, KeyD]) LargeFiles =
     Some {''/d/f1'', ''/d/f2'', ''/d/f3'', ''/d/f4'', ''/d/f5''}"
    by code_simp
  show ?thesis
    using dir_toggle_keeps_categories [OF p step_state_after [OF n]] p f by simp
qed

text \<open>
  Claim C4. In the files pane with the caret on a selectable file row of the active category,
  space on a path that is not selected adds the path to the category's selected-file set and
  the category to \<^const>\<open>selectedCategories\<close>; space on the only selected path leaves the
  set empty and removes the category from \<^const>\<open>selectedCategories\<close>.
\<close>

theorem files_space_toggle:
  assumes "activePane s = Files"
    and "render cfg s = Inr v"
    and "activeCategory v = Some a"
    and "at (activeGroupedFiles v) (active_caret s a) = Some row"
    and "selectable row"
    and "row_item row = Some it"
    and "step cfg s KeySpace = Inr (Next s')"
  shows "(item_path it \<notin> current_files s a \<longrightarrow>
            selectedFilesByCategory s' a = Some (insert (item_path it) (current_files s a)) \<and>
            selectedCategories s' = insert a (selectedCategories s)) \<and>
         (current_files s a = {item_path it} \<longrightarrow>
            selectedFilesByCategory s' a = Some {} \<and>
            selectedCategories s' = selectedCategories s - {a})"
proof -
  have "s' = files_space v a s"
    using step_render(2) [OF assms(2,7)] assms(1,3) by (simp add: handle_files_def)
  then show ?thesis
    using assms(4,5,6) by (simp add: files_space_def Let_def)
qed

theorem files_space_toggle_witness:
  "activePane (state_after one_category [KeyRight]) = Files \<and>
   item_path (mk_item ''/d/f1'' 60) \<notin> current_files (state_after one_category [KeyRight]) LargeFiles \<and>
   selectedFilesByCategory (state_after one_category [KeyRight, KeySpace]) LargeFiles =
     Some (insert (item_path (mk_item ''/d/f1'' 60))
            (current_files (state_after one_category [KeyRight]) LargeFiles)) \<and>
   selectedCategories (state_after one_category [KeyRight, KeySpace]) =
     insert LargeFiles (selectedCategories (state_after one_category [KeyRight]))"
proof -
  let ?s = "state_after one_category [KeyRight]"
  let ?v = "projr (render one_category ?s)"
  let ?g = "\<lparr>group_path = ''/d'', files = six_files, largestFileSize = 60\<rparr>"
  have p: "activePane ?s = Files"
    by code_simp
  have "\<not> isl (render one_category ?s)"
    by code_simp
  then have r: "render one_category ?s = Inr ?v"
    by (rule render_projr)
  have a: "activeCategory ?v = Some LargeFiles"
    by code_simp
  have row: "at (activeGroupedFiles ?v) (active_caret ?s LargeFiles) = Some (file_row ?g (mk_item ''/d/f1'' 60))"
    by code_simp
  have sel: "selectable (file_row ?g (mk_item ''/d/f1'' 60))"
    by code_simp
  have it: "row_item (file_row ?g (mk_item ''/d/f1'' 60)) = Some (mk_item ''/d/f1'' 60)"
    by code_simp
  have n: "is_next (run one_category initialState ([KeyRight] @ [KeySpace]))"
    by code_simp
  have notin: "item_path (mk_item ''/d/f1'' 60) \<notin> current_files ?s LargeFiles"
    by code_simp
  show ?thesis
    using files_space_toggle [OF p r a row sel it step_state_after [OF n]] p notin by simp
qed

text \<open>
  Claim C5. In the categories pane, with unique category ids, space on a selected category
  removes it from \<^const>\<open>selectedCategories\<close> and, when it supports file selection, sets its
  selected-file set to the empty set and its UI state to not visible; space on a category
  that is not selected adds it and, when it supports file selection, selects the paths of all
  items of the result under the caret and sets its UI state to visible.
\<close>

theorem categories_space_toggle:
  assumes "activePane s = Categories"
    and "render cfg s = Inr v"
    and "c = result_id (currentResult v)"
    and "wf_config cfg"
    and "step cfg s KeySpace = Inr (Next s')"
  shows "(c \<in> selectedCategories s \<longrightarrow>
            selectedCategories s' = selectedCategories s - {c} \<and>
            (c \<in> categoriesWithFileSelection cfg \<longrightarrow>
               selectedFilesByCategory s' c = Some {} \<and>
               \<not> visible (getPickerState (categoryFilePickerStates s') c))) \<and>
         (c \<notin> selectedCategories s \<longrightarrow>
            selectedCategories s' = insert c (selectedCategories s) \<and>
            (c \<in> categoriesWithFileSelection cfg \<longrightarrow>
               selectedFilesByCategory s' c = Some (set (item_paths (currentResult v))) \<and>
               visible (getPickerState (categoryFilePickerStates s') c)))"
proof -
  have s': "s' = categories_space cfg v s"
    using step_render(2) [OF assms(2,5)] assms(1) by (simp add: handle_categories_def)
  have "currentResult v \<in> set (results cfg)"
    using render_Inr(1) [OF assms(2)] by (rule at_in_set)
  then have fnd: "find (\<lambda>r. result_id r = c) (results cfg) = Some (currentResult v)"
    using assms(3,4) find_distinct [of result_id "results cfg" "currentResult v"]
    by (simp add: wf_config_def)
  show ?thesis
    unfolding s' using fnd assms(3)
    by (simp add: categories_space_def Let_def visible_updatePickerState)
qed

theorem categories_space_toggle_witness:
  "activePane initialState = Categories \<and>
   wf_config three_categories \<and>
   selectedCategories (state_after three_categories [KeySpace]) = {LargeFiles} \<and>
   selectedFilesByCategory (state_after three_categories [KeySpace]) LargeFiles =
     Some {''/a/x'', ''/b/y''} \<and>
   visible (getPickerState (categoryFilePickerStates (state_after three_categories [KeySpace]))
     LargeFiles)"
proof -
  let ?v = "projr (render three_categories initialState)"
  have s0: "state_after three_categories [] = initialState"
    by (simp add: state_after_def)
  have p: "activePane initialState = Categories"
    by code_simp
  have "\<not> isl (render three_categories initialState)"
    by code_simp
  then have r: "render three_categories initialState = Inr ?v"
    by (rule render_projr)
  have c: "LargeFiles = result_id (currentResult ?v)"
    by code_simp
  have w: "wf_config three_categories"
    by code_simp
  have n: "is_next (run three_categories initialState ([] @ [KeySpace]))"
    by code_simp
  have st: "step three_categories initialState KeySpace =
      Inr (Next (state_after three_categories [KeySpace]))"
    using step_state_after [OF n] s0 by simp
  have e: "LargeFiles \<notin> selectedCategories initialState"
    "LargeFiles \<in> categoriesWithFileSelection three_categories"
    "selectedCategories initialState = {}"
    "set (item_paths (currentResult ?v)) = {''/a/x'', ''/b/y''}"
    by code_simp+
  show ?thesis
    using categories_space_toggle [OF p r c w st] p w e by simp
qed

text \<open>
  Claim C7. A single-file toggle, a select-all, an invert or a directory toggle in the files
  pane (scoped to the active category), and a space in the categories pane (scoped to the
  category under the caret), leave the selected-file entry and the
  \<^const>\<open>selectedCategories\<close> membership of every other category unchanged.
\<close>

theorem scoped_operations_isolated:
  assumes "render cfg s = Inr v"
    and "step cfg s key = Inr (Next s')"
    and "(activePane s = Files \<and> activeCategory v = Some x \<and>
            (key = KeySpace \<or> key = KeyA \<or> key = KeyI \<or> key = KeyD))
         \<or> (activePane s = Categories \<and> x = result_id (currentResult v) \<and> key = KeySpace)"
    and "y \<noteq> x"
  shows "selectedFilesByCategory s' y = selectedFilesByCategory s y \<and>
         (y \<in> selectedCategories s' \<longleftrightarrow> y \<in> selectedCategories s)"
proof -
  note st = step_render(2) [OF assms(1,2)]
  from assms(3) show ?thesis
  proof
    assume a: "activePane s = Files \<and> activeCategory v = Some x \<and>
            (key = KeySpace \<or> key = KeyA \<or> key = KeyI \<or> key = KeyD)"
    then have s': "s' = handle_files cfg v x s key"
      using st by simp
    from a have "key = KeySpace \<or> key = KeyA \<or> key = KeyI \<or> key = KeyD" by simp
    then show ?thesis
    proof (elim disjE)
      assume "key = KeySpace"
      then show ?thesis using s' assms(4)
        by (auto simp: handle_files_def files_space_def Let_def split: option.splits)
    next
      assume "key = KeyA"
      then show ?thesis using s' assms(4)
        by (auto simp: handle_files_def files_a_def Let_def split: option.splits)
    next
      assume "key = KeyI"
      then show ?thesis using s' assms(4)
        by (auto simp: handle_files_def files_i_def Let_def split: option.splits prod.splits)
    next
      assume "key = KeyD"
      then show ?thesis using s' assms(4)
        by (auto simp: handle_files_def files_d_def Let_def split: option.splits)
    qed
  next
    assume a: "activePane s = Categories \<and> x = result_id (currentResult v) \<and> key = KeySpace"
    then have "s' = categories_space cfg v s"
      using st by (simp add: handle_categories_def)
    then show ?thesis using a assms(4)
      by (auto simp: categories_space_def Let_def split: option.splits)
  qed
qed

theorem scoped_operations_isolated_witness:
  "selectedFilesByCategory (state_after three_categories [KeySpace, KeyDown, KeySpace]) LargeFiles
     = selectedFilesByCategory (state_after three_categories [KeySpace, KeyDown]) LargeFiles \<and>
   LargeFiles \<in> selectedCategories (state_after three_categories [KeySpace, KeyDown, KeySpace]) \<and>
   LargeFiles \<in> selectedCategories (state_after three_categories [KeySpace, KeyDown])"
proof -
  let ?s = "state_after three_categories [KeySpace, KeyDown]"
  let ?v = "projr (render three_categories ?s)"
  have "\<not> isl (render three_categories ?s)"
    by code_simp
  then have r: "render three_categories ?s = Inr ?v"
    by (rule render_projr)
  have n: "is_next (run three_categories initialState ([KeySpace, KeyDown] @ [KeySpace]))"
    by code_simp
  have sc: "activePane ?s = Categories \<and> Downloads = result_id (currentResult ?v) \<and> KeySpace = KeySpace"
    by code_simp
  have ne: "LargeFiles \<noteq> Downloads"
    by simp
  have m: "LargeFiles \<in> selectedCategories ?s"
    by code_simp
  show ?thesis
    using scoped_operations_isolated [OF r step_state_after [OF n] disjI2 [OF sc] ne] m by simp
qed

section \<open>Rows, selected paths and the invariant\<close>

lemma groupByDirectory_files_subset:
  assumes "g \<in> set (groupByDirectory fs)"
  shows "set (files g) \<subseteq> set fs"
proof -
  obtain d xs where e: "(d, xs) \<in> set (group_entries fs)" and g: "g = make_group (d, xs)"
    using groupByDirectory_member [OF assms] by blast
  show ?thesis
    unfolding g make_group_entry(2) [OF e] by (auto simp: set_js_sort)
qed

lemma applyExpandLimits_limited:
  "applyExpandLimits groups limits defaultLimit = map (limited limits defaultLimit) groups"
  by (simp add: applyExpandLimits_def limited_def)

lemma groupFilesByDirectory_concat:
  "groupFilesByDirectory fs limits d =
     concat (map (\<lambda>g. group_rows (limited limits d g)) (groupByDirectory fs))"
  by (simp add: groupFilesByDirectory_def formatAsDisplayItems_def applyExpandLimits_limited
      comp_def)

lemma group_rows_cases:
  assumes "row \<in> set (group_rows (limited limits d g))"
  shows "row = header_row g
         \<or> (\<exists>f \<in> set (files g). row = file_row g f)
         \<or> row = hint_row g (visibleCount (limited limits d g))"
  using assms
  by (auto simp: group_rows_def limited_def Let_def dest: in_set_takeD split: if_splits)

lemma group_rows_selectable:
  assumes "row \<in> set (group_rows (limited limits d g))" and "selectable row"
  shows "row_type row = FileRow \<and> (\<exists>f \<in> set (files g). row_item row = Some f)"
  using group_rows_cases [OF assms(1)] assms(2)
  by (auto simp: header_row_def file_row_def hint_row_def)

lemma group_rows_item:
  assumes "row \<in> set (group_rows (limited limits d g))" and "row_item row = Some f"
  shows "f \<in> set (files g)"
  using group_rows_cases [OF assms(1)] assms(2)
  by (auto simp: header_row_def file_row_def hint_row_def)

lemma groupFilesByDirectory_item:
  assumes "row \<in> set (groupFilesByDirectory fs limits d)" and "row_item row = Some f"
  shows "f \<in> set fs"
proof -
  obtain g where g: "g \<in> set (groupByDirectory fs)"
    and r: "row \<in> set (group_rows (limited limits d g))"
    using assms(1) by (auto simp: groupFilesByDirectory_concat)
  show ?thesis
    using group_rows_item [OF r assms(2)] groupByDirectory_files_subset [OF g] by blast
qed

lemma groupFilesByDirectory_selectable:
  assumes "row \<in> set (groupFilesByDirectory fs limits d)" and "selectable row"
  shows "row_type row = FileRow \<and> (\<exists>f. row_item row = Some f)"
proof -
  obtain g where r: "row \<in> set (group_rows (limited limits d g))"
    using assms(1) by (auto simp: groupFilesByDirectory_concat)
  show ?thesis
    using group_rows_selectable [OF r assms(2)] by blast
qed

lemma fold_grouped_Some:
  assumes "fold (\<lambda>result grouped.
        if result_id result \<in> cw
        then grouped(result_id result \<mapsto> F result)
        else grouped) rs m a = Some rows"
  shows "(\<exists>r \<in> set rs. result_id r = a \<and> a \<in> cw \<and> rows = F r) \<or> m a = Some rows"
  using assms
proof (induction rs arbitrary: m)
  case Nil
  then show ?case by simp
next
  case (Cons r rs)
  from Cons.IH [OF Cons.prems [simplified]] show ?case
    by (auto split: if_splits)
qed

lemma allGrouped_Some:
  assumes "allGroupedFilesByCategory cfg st a = Some rows"
  shows "\<exists>r \<in> set (results cfg). result_id r = a \<and> a \<in> categoriesWithFileSelection cfg \<and>
           rows = groupFilesByDirectory (items r) (dirExpandLimits (getPickerState st a)) 5"
proof -
  let ?F = "\<lambda>r. groupFilesByDirectory (items r) (dirExpandLimits (getPickerState st (result_id r))) 5"
  have "fold (\<lambda>result grouped.
        if result_id result \<in> categoriesWithFileSelection cfg
        then grouped(result_id result \<mapsto> ?F result)
        else grouped) (results cfg) Map.empty a = Some rows"
    using assms by (simp add: allGroupedFilesByCategory_def)
  from fold_grouped_Some [OF this] show ?thesis by auto
qed

lemma all_files_map_Some:
  assumes "all_files_map cfg a = Some fs"
  shows "\<exists>r \<in> set (results cfg). result_id r = a \<and> fs = set (item_paths r)"
proof -
  have "fold (\<lambda>result grouped.
        if result_id result \<in> categoriesWithFileSelection cfg
        then grouped(result_id result \<mapsto> set (item_paths result))
        else grouped) (results cfg) Map.empty a = Some fs"
    using assms by (simp add: all_files_map_def)
  from fold_grouped_Some [OF this] show ?thesis by auto
qed

lemma paths_of_result:
  assumes "wf_config cfg" and "r \<in> set (results cfg)"
  shows "paths_of cfg (result_id r) = set (item_paths r)"
  using find_distinct [of result_id "results cfg" r] assms
  by (simp add: paths_of_def wf_config_def)

lemma active_rows:
  assumes "render cfg s = Inr v" and "activeCategory v = Some a"
  shows "activeGroupedFiles v = [] \<or>
         (\<exists>r \<in> set (results cfg). result_id r = a \<and> a \<in> categoriesWithFileSelection cfg \<and>
            activeGroupedFiles v = groupFilesByDirectory (items r)
              (dirExpandLimits (getPickerState (categoryFilePickerStates s) a)) 5)"
proof (cases "allGrouped v a")
  case None
  then show ?thesis using render_Inr(5) [OF assms(1)] assms(2) by simp
next
  case (Some rows)
  then have "activeGroupedFiles v = rows"
    using render_Inr(5) [OF assms(1)] assms(2) by simp
  moreover have "allGroupedFilesByCategory cfg (categoryFilePickerStates s) a = Some rows"
    using Some render_Inr(3) [OF assms(1)] by simp
  ultimately show ?thesis using allGrouped_Some by blast
qed

lemma active_rows_item:
  assumes "wf_config cfg" and "render cfg s = Inr v" and "activeCategory v = Some a"
    and "row \<in> set (activeGroupedFiles v)" and "row_item row = Some f"
  shows "item_path f \<in> paths_of cfg a"
proof -
  from active_rows [OF assms(2,3)] assms(4) obtain r where r: "r \<in> set (results cfg)"
    and a: "result_id r = a"
    and rows: "activeGroupedFiles v = groupFilesByDirectory (items r)
              (dirExpandLimits (getPickerState (categoryFilePickerStates s) a)) 5"
    by auto
  have "f \<in> set (items r)"
    using groupFilesByDirectory_item assms(4,5) rows by metis
  then show ?thesis
    using paths_of_result [OF assms(1) r] a by (auto simp: item_paths_def)
qed

lemma set_dir_files:
  "set (dir_files rows cur) \<subseteq> {item_path f | f row. row \<in> set rows \<and> row_item row = Some f}"
  by (auto simp: dir_files_def List.map_filter_def split: if_splits)

lemma files_ok_upd:
  "files_ok cfg s \<Longrightarrow> fs \<subseteq> paths_of cfg a \<Longrightarrow>
   files_ok cfg (s\<lparr>selectedFilesByCategory := (selectedFilesByCategory s)(a \<mapsto> fs)\<rparr>)"
  by (auto simp: files_ok_def)

lemma current_files_subset: "files_ok cfg s \<Longrightarrow> current_files s a \<subseteq> paths_of cfg a"
  by (auto simp: files_ok_def current_files_def split: option.splits)

lemma fold_invert_path_subset:
  "fst acc \<subseteq> A \<Longrightarrow> set ps \<subseteq> A \<Longrightarrow> fst (fold invert_path ps acc) \<subseteq> A"
proof (induction ps arbitrary: acc)
  case Nil
  then show ?case by simp
next
  case (Cons p ps)
  have "fst (invert_path p acc) \<subseteq> A"
    using Cons.prems by (auto simp: invert_path_def split: prod.splits)
  then show ?case using Cons.IH [of "invert_path p acc"] Cons.prems by simp
qed

lemma find_result_paths:
  "find (\<lambda>r. result_id r = a) (results cfg) = Some r \<Longrightarrow> paths_of cfg a = set (item_paths r)"
  by (simp add: paths_of_def)

lemma files_ok_handle_files:
  assumes "wf_config cfg" and "render cfg s = Inr v" and "activeCategory v = Some a"
    and "files_ok cfg s"
  shows "files_ok cfg (handle_files cfg v a s key)"
proof -
  note cur = current_files_subset [OF assms(4), of a]
  have it: "\<And>row f. row \<in> set (activeGroupedFiles v) \<Longrightarrow> row_item row = Some f
      \<Longrightarrow> item_path f \<in> paths_of cfg a"
    using active_rows_item [OF assms(1,2,3)] by blast
  have sp: "files_ok cfg (files_space v a s)"
  proof (cases "at (activeGroupedFiles v) (active_caret s a)")
    case None
    then show ?thesis using assms(4) by (simp add: files_space_def)
  next
    case (Some row)
    then have "row \<in> set (activeGroupedFiles v)" by (rule at_in_set)
    then show ?thesis
      using Some assms(4) it [of row] cur
      by (auto simp: files_space_def Let_def files_ok_def split: option.splits)
  qed
  have fa: "files_ok cfg (files_a cfg a s)"
    using assms(4) cur
    by (auto simp: files_a_def Let_def files_ok_def find_result_paths split: option.splits)
  have fd: "files_ok cfg (files_d v a s)"
  proof (cases "at (activeGroupedFiles v) (active_caret s a)")
    case None
    then show ?thesis using assms(4) by (simp add: files_d_def)
  next
    case (Some row)
    have "set (dir_files (activeGroupedFiles v) row) \<subseteq> paths_of cfg a"
      using set_dir_files [of "activeGroupedFiles v" row] it by blast
    then show ?thesis
      using Some assms(4) cur
      by (auto simp: files_d_def Let_def files_ok_def)
  qed
  have fi: "files_ok cfg (files_i cfg a s)"
  proof (cases "find (\<lambda>r. result_id r = a) (results cfg)")
    case None
    then show ?thesis using assms(4) by (simp add: files_i_def)
  next
    case (Some r)
    have "fst (fold invert_path (item_paths r) (current_files s a, False)) \<subseteq> paths_of cfg a"
      using cur find_result_paths [OF Some] by (intro fold_invert_path_subset) auto
    then show ?thesis
      using Some assms(4)
      by (auto simp: files_i_def files_ok_def split: prod.splits)
  qed
  have other: "\<And>st. files_ok cfg (s\<lparr>categoryFilePickerStates := st\<rparr>)"
    using assms(4) by (simp add: files_ok_def)
  have up: "files_ok cfg (files_up v a s)" "files_ok cfg (files_down v a s)"
    "files_ok cfg (files_m v a s)" "files_ok cfg (files_h v a s)"
    "files_ok cfg (files_right v a s)" "files_ok cfg (files_back s)"
    using assms(4) other
    by (auto simp: files_up_def files_down_def files_m_def files_h_def files_right_def
        files_back_def expand_dir_def Let_def files_ok_def split: option.splits)
  show ?thesis
    using sp fa fd fi up assms(4) by (simp add: handle_files_def)
qed

lemma limits_update:
  "dirExpandLimits (getPickerState (updatePickerState st k u) c) =
     (if c = k
      then (case upd_dirExpandLimits u of
              Some l \<Rightarrow> l | None \<Rightarrow> dirExpandLimits (getPickerState st k))
      else dirExpandLimits (getPickerState st c))"
  by (simp add: updatePickerState_def Let_def getPickerState_store_put)

lemma map_of_deactivate:
  "map_of (map (\<lambda>(key, state). (key, state\<lparr>active := False\<rparr>)) st) c =
     map_option (\<lambda>e. e\<lparr>active := False\<rparr>) (map_of st c)"
  by (induction st) auto

lemma getPickerState_deactivate:
  "getPickerState (map (\<lambda>(key, state). (key, state\<lparr>active := False\<rparr>)) st) c =
     (case map_of st c of None \<Rightarrow> DEFAULT_PICKER_STATE | Some e \<Rightarrow> e\<lparr>active := False\<rparr>)"
  by (simp add: getPickerState_def map_of_deactivate split: option.splits)

lemma limits_deactivate:
  "dirExpandLimits (getPickerState (map (\<lambda>(key, state). (key, state\<lparr>active := False\<rparr>)) st) c) =
     dirExpandLimits (getPickerState st c)"
  unfolding getPickerState_deactivate
  by (simp add: getPickerState_def DEFAULT_PICKER_STATE_def split: option.splits)

lemma limits_ok_same:
  "limits_ok st \<Longrightarrow>
   (\<And>c. dirExpandLimits (getPickerState st' c) = dirExpandLimits (getPickerState st c)) \<Longrightarrow>
   limits_ok st'"
  by (simp add: limits_ok_def)

lemma limits_ok_visible: "limits_ok st \<Longrightarrow> limits_ok (updatePickerState st k (set_visible b))"
  by (rule limits_ok_same) (auto simp: limits_update set_visible_def no_updates_def)

lemma limits_ok_fileCaret: "limits_ok st \<Longrightarrow> limits_ok (updatePickerState st k (set_fileCaret n))"
  by (rule limits_ok_same) (auto simp: limits_update set_fileCaret_def no_updates_def)

lemma limits_ok_empty: "limits_ok []"
  by (simp add: limits_ok_def getPickerState_def DEFAULT_PICKER_STATE_def)

lemma limits_ok_set:
  assumes "limits_ok st" and "DIR_VIS_CHILD_LIMIT \<le> n"
  shows "limits_ok (updatePickerState st k
           (set_dirExpandLimits ((dirExpandLimits (getPickerState st k))(d \<mapsto> NumberLimit n))))"
  using assms
  by (auto simp: limits_ok_def limits_update set_dirExpandLimits_def no_updates_def)

lemma expanded_limit_number:
  assumes "limits_ok st"
    and "\<not> (dirExpandLimits (getPickerState st a) k = None \<and> k \<in> set object_prototype_keys)"
  shows "\<exists>n. expanded_limit (dirExpandLimits (getPickerState st a)) k = NumberLimit n
           \<and> DIR_VIS_CHILD_LIMIT \<le> n"
proof (cases "dirExpandLimits (getPickerState st a) k")
  case None
  then show ?thesis
    using assms(2) by (simp add: expanded_limit_def EXPAND_INCREMENT_def)
next
  case (Some l)
  then obtain n where "l = NumberLimit n" and "DIR_VIS_CHILD_LIMIT \<le> n"
    using assms(1) unfolding limits_ok_def by blast
  then show ?thesis
    using Some by (simp add: expanded_limit_def EXPAND_INCREMENT_def)
qed

lemma limits_ok_expand:
  assumes "limits_ok (categoryFilePickerStates s)"
    and "\<not> (dirExpandLimits (getPickerState (categoryFilePickerStates s) a) k = None
           \<and> k \<in> set object_prototype_keys)"
  shows "limits_ok (categoryFilePickerStates (expand_dir a s k))"
proof -
  obtain n
    where n: "expanded_limit (dirExpandLimits (getPickerState (categoryFilePickerStates s) a)) k
                = NumberLimit n"
      and le: "DIR_VIS_CHILD_LIMIT \<le> n"
    using expanded_limit_number [OF assms] by blast
  show ?thesis
    using limits_ok_set [OF assms(1) le, of a k] by (simp add: expand_dir_def Let_def n)
qed

lemma limits_ok_handle_files:
  assumes "limits_ok (categoryFilePickerStates s)"
    and "\<And>row k. at (activeGroupedFiles v) (active_caret s a) = Some row \<Longrightarrow>
           key = KeyM \<or> (key = KeyRight \<and> row_type row = ExpandHint) \<Longrightarrow>
           truthy_key (Some row) = Some k \<Longrightarrow>
           \<not> (dirExpandLimits (getPickerState (categoryFilePickerStates s) a) k = None
              \<and> k \<in> set object_prototype_keys)"
  shows "limits_ok (categoryFilePickerStates (handle_files cfg v a s key))"
proof -
  have m: "limits_ok (categoryFilePickerStates (files_m v a s))" if "key = KeyM"
  proof (cases "at (activeGroupedFiles v) (active_caret s a)")
    case None
    then show ?thesis
      using assms(1) by (simp add: files_m_def truthy_key_def)
  next
    case (Some row)
    show ?thesis
    proof (cases "truthy_key (Some row)")
      case None
      then show ?thesis
        using assms(1) Some by (simp add: files_m_def)
    next
      case k: (Some k)
      have "\<not> (dirExpandLimits (getPickerState (categoryFilePickerStates s) a) k = None
            \<and> k \<in> set object_prototype_keys)"
        using assms(2) [OF Some _ k] that by simp
      with assms(1) have "limits_ok (categoryFilePickerStates (expand_dir a s k))"
        by (rule limits_ok_expand)
      then show ?thesis
        using Some k by (simp add: files_m_def)
    qed
  qed
  have r: "limits_ok (categoryFilePickerStates (files_right v a s))" if "key = KeyRight"
  proof (cases "at (activeGroupedFiles v) (active_caret s a)")
    case None
    then show ?thesis
      using assms(1) by (simp add: files_right_def)
  next
    case (Some row)
    show ?thesis
    proof (cases "row_type row = ExpandHint")
      case False
      then show ?thesis
        using assms(1) Some by (simp add: files_right_def)
    next
      case True
      show ?thesis
      proof (cases "truthy_key (Some row)")
        case None
        then show ?thesis
          using assms(1) Some True by (simp add: files_right_def)
      next
        case k: (Some k)
        have "\<not> (dirExpandLimits (getPickerState (categoryFilePickerStates s) a) k = None
              \<and> k \<in> set object_prototype_keys)"
          using assms(2) [OF Some _ k] that True by simp
        with assms(1) have "limits_ok (categoryFilePickerStates (expand_dir a s k))"
          by (rule limits_ok_expand)
        then show ?thesis
          using Some True k by (simp add: files_right_def)
      qed
    qed
  qed
  have h: "limits_ok (categoryFilePickerStates (files_h v a s))"
    using assms(1) limits_ok_set [OF assms(1), of DIR_VIS_CHILD_LIMIT]
    by (simp add: files_h_def Let_def split: option.splits)
  have b: "limits_ok (categoryFilePickerStates (files_back s))"
    using assms(1)
    by (auto simp: files_back_def setActiveCategory_def limits_deactivate intro: limits_ok_same)
  have sel: "categoryFilePickerStates (files_space v a s) = categoryFilePickerStates s"
    "categoryFilePickerStates (files_a cfg a s) = categoryFilePickerStates s"
    "categoryFilePickerStates (files_d v a s) = categoryFilePickerStates s"
    "categoryFilePickerStates (files_i cfg a s) = categoryFilePickerStates s"
    by (auto simp: files_space_def files_a_def files_d_def files_i_def Let_def
        split: option.splits prod.splits)
  have ud: "limits_ok (categoryFilePickerStates (files_up v a s))"
    "limits_ok (categoryFilePickerStates (files_down v a s))"
    using assms(1) limits_ok_fileCaret [OF assms(1)]
    by (simp_all add: files_up_def files_down_def Let_def)
  show ?thesis
    using assms(1) m r h b sel ud by (simp add: handle_files_def)
qed

lemma fold_last_wins:
  assumes "P st" and "\<And>r. P (F r)"
  shows "P (fold (\<lambda>r next. if C r then F r else next) rs st)"
  using assms(1)
proof (induction rs arbitrary: st)
  case Nil
  then show ?case by simp
next
  case (Cons r rs)
  show ?case using Cons.IH [of "if C r then F r else st"] Cons.prems assms(2) by simp
qed

lemma fold_invert_category:
  assumes "P sel nfs next"
    and "\<And>r sel nfs next. r \<in> set rs \<Longrightarrow> P sel nfs next \<Longrightarrow>
           (case invert_category cfg st0 r (sel, nfs, next) of (x, y, z) \<Rightarrow> P x y z)"
  shows "case fold (invert_category cfg st0) rs (sel, nfs, next) of (x, y, z) \<Rightarrow> P x y z"
  using assms
proof (induction rs arbitrary: sel nfs "next")
  case Nil
  then show ?case by simp
next
  case (Cons r rs)
  obtain x y z where e: "invert_category cfg st0 r (sel, nfs, next) = (x, y, z)"
    by (cases "invert_category cfg st0 r (sel, nfs, next)") auto
  have "P x y z"
    using Cons.prems(2) [of r sel nfs "next"] Cons.prems(1) e by simp
  then show ?case
    using Cons.IH [of x y z] Cons.prems(2) e by simp
qed

lemma limits_ok_handle_categories:
  assumes "limits_ok (categoryFilePickerStates s)"
  shows "limits_ok (categoryFilePickerStates (handle_categories cfg v s key))"
proof -
  let ?st = "categoryFilePickerStates s"
  have sp: "limits_ok (categoryFilePickerStates (categories_space cfg v s))"
    using assms limits_ok_visible [OF assms]
    by (simp add: categories_space_def Let_def)
  have a: "limits_ok (categoryFilePickerStates (categories_a cfg s))"
    using assms limits_ok_empty
      fold_last_wins [of limits_ok ?st "\<lambda>r. updatePickerState ?st (result_id r) (set_visible True)"
        "\<lambda>r. result_id r \<in> categoriesWithFileSelection cfg" "results cfg"]
      limits_ok_visible [OF assms]
    by (simp add: categories_a_def Let_def)
  have "case fold (invert_category cfg ?st) (results cfg)
          (selectedCategories s, selectedFilesByCategory s, ?st) of
          (x, y, z) \<Rightarrow> limits_ok z"
    by (rule fold_invert_category)
      (use assms limits_ok_visible [OF assms] in \<open>auto simp: invert_category_def Let_def\<close>)
  then have i: "limits_ok (categoryFilePickerStates (categories_i cfg s))"
    by (auto simp: categories_i_def split: prod.splits)
  have r: "limits_ok (categoryFilePickerStates (categories_right v s))"
    using assms
    by (auto simp: categories_right_def Let_def getPickerState_store_put limits_deactivate
        intro!: limits_ok_same [OF assms])
  show ?thesis
    using assms sp a i r
    by (simp add: handle_categories_def categories_up_def categories_down_def)
qed

lemma files_ok_store:
  "files_ok cfg (s\<lparr>categoryFilePickerStates := st\<rparr>) = files_ok cfg s"
  "files_ok cfg (s\<lparr>categoryCaret := n\<rparr>) = files_ok cfg s"
  "files_ok cfg (s\<lparr>activePane := p\<rparr>) = files_ok cfg s"
  by (simp_all add: files_ok_def)

lemma files_ok_handle_categories:
  assumes "wf_config cfg" and "files_ok cfg s"
  shows "files_ok cfg (handle_categories cfg v s key)"
proof -
  have sp: "files_ok cfg (categories_space cfg v s)"
    using assms(2)
    by (auto simp: categories_space_def Let_def files_ok_def find_result_paths
        split: option.splits)
  have "\<And>c fs. all_files_map cfg c = Some fs \<Longrightarrow> fs \<subseteq> paths_of cfg c"
    using all_files_map_Some paths_of_result [OF assms(1)] by blast
  then have a: "files_ok cfg (categories_a cfg s)"
    by (auto simp: categories_a_def Let_def files_ok_def all_files_map_def [symmetric])
  have "case fold (invert_category cfg (categoryFilePickerStates s)) (results cfg)
          (selectedCategories s, selectedFilesByCategory s, categoryFilePickerStates s) of
          (x, y, z) \<Rightarrow> (\<forall>c fs. y c = Some fs \<longrightarrow> fs \<subseteq> paths_of cfg c)"
    by (rule fold_invert_category)
      (use assms(2) paths_of_result [OF assms(1)] in
        \<open>auto simp: invert_category_def Let_def files_ok_def\<close>)
  then have i: "files_ok cfg (categories_i cfg s)"
    by (auto simp: categories_i_def files_ok_def split: prod.splits)
  have r: "files_ok cfg (categories_right v s)"
    using assms(2) by (auto simp: categories_right_def Let_def files_ok_def)
  show ?thesis
    using assms(2) sp a i r
    by (simp add: handle_categories_def categories_up_def categories_down_def files_ok_store)
qed

lemma caret_handle_files: "categoryCaret (handle_files cfg v a s key) = categoryCaret s"
  by (auto simp: handle_files_def files_up_def files_down_def files_space_def files_a_def
      files_d_def files_i_def files_m_def files_h_def files_right_def files_back_def
      expand_dir_def Let_def split: option.splits prod.splits)

lemma caret_handle_categories:
  "categoryCaret (handle_categories cfg v s key) =
     (if key = KeyUp then max 0 (categoryCaret s - 1)
      else if key = KeyDown then min (int (length (results cfg)) - 1) (categoryCaret s + 1)
      else categoryCaret s)"
  by (auto simp: handle_categories_def categories_up_def categories_down_def
      categories_space_def categories_a_def categories_i_def categories_right_def
      Let_def split: option.splits prod.splits)

lemma caret_ok_step:
  assumes "caret_ok cfg s" and "render cfg s = Inr v" and "step cfg s key = Inr (Next s')"
  shows "caret_ok cfg s'"
proof -
  have "results cfg \<noteq> []"
    using render_Inr(1) [OF assms(2)] by (auto simp: at_def split: if_splits)
  then show ?thesis
    using assms(1) step_render(2) [OF assms(2,3)]
    by (auto simp: caret_ok_def caret_handle_files caret_handle_categories split: option.splits)
qed

lemma inv_initial: "inv cfg initialState"
  by (simp add: inv_def caret_ok_def files_ok_def initialState_def)

lemma inv_step:
  assumes "wf_config cfg" and "inv cfg s" and "step cfg s key = Inr (Next s')"
  shows "inv cfg s'"
proof -
  obtain v where v: "render cfg s = Inr v"
    using step_Next [OF assms(3)] by blast
  note s' = step_render(2) [OF v assms(3)]
  have c: "caret_ok cfg s'"
    using caret_ok_step [OF _ v assms(3)] assms(2) by (simp add: inv_def)
  have f: "files_ok cfg s'"
    using s' assms(2) files_ok_handle_categories [OF assms(1)]
      files_ok_handle_files [OF assms(1) v]
    by (auto simp: inv_def split: option.splits)
  show ?thesis using c f by (simp add: inv_def)
qed

lemma inv_run:
  assumes "wf_config cfg"
  shows "inv cfg s \<Longrightarrow> run cfg s keys = Inr (Next s') \<Longrightarrow> inv cfg s'"
proof (induction keys arbitrary: s)
  case Nil
  then show ?case by simp
next
  case (Cons key keys)
  from Cons.prems(2) obtain s1 where s1: "step cfg s key = Inr (Next s1)"
    and r: "run cfg s1 keys = Inr (Next s')"
    by (auto split: sum.splits outcome.splits)
  show ?case
    using Cons.IH [OF inv_step [OF assms Cons.prems(1) s1] r] .
qed

lemma inv_reachable: "wf_config cfg \<Longrightarrow> reachable cfg s \<Longrightarrow> inv cfg s"
  using inv_run [OF _ inv_initial] by (auto simp: reachable_def)

text \<open>The caret part needs no uniqueness of ids.\<close>

lemma caret_ok_run:
  "caret_ok cfg s \<Longrightarrow> run cfg s keys = Inr (Next s') \<Longrightarrow> caret_ok cfg s'"
proof (induction keys arbitrary: s)
  case Nil
  then show ?case by simp
next
  case (Cons key keys)
  from Cons.prems(2) obtain s1 where s1: "step cfg s key = Inr (Next s1)"
    and r: "run cfg s1 keys = Inr (Next s')"
    by (auto split: sum.splits outcome.splits)
  obtain v where v: "render cfg s = Inr v"
    using step_Next [OF s1] by blast
  show ?case
    using Cons.IH [OF caret_ok_step [OF Cons.prems(1) v s1] r] .
qed

section \<open>Select-all in the files pane\<close>

text \<open>
  Claim C6. In every reachable state of a session with unique category ids, with the files
  pane on the active category, \<^verbatim>\<open>a\<close> works on the paths of all scanned items of that
  category, whatever rows are shown: when every item is selected, the selected-file set
  becomes empty and the category leaves \<^const>\<open>selectedCategories\<close>; otherwise the set
  becomes the paths of all items and the category is added.
\<close>

theorem files_select_all:
  assumes "wf_config cfg" and "reachable cfg s"
    and "activePane s = Files"
    and "render cfg s = Inr v"
    and "activeCategory v = Some a"
    and "find (\<lambda>r. result_id r = a) (results cfg) = Some r"
    and "step cfg s KeyA = Inr (Next s')"
  shows "(set (item_paths r) \<subseteq> current_files s a \<longrightarrow>
            selectedFilesByCategory s' a = Some {} \<and>
            selectedCategories s' = selectedCategories s - {a}) \<and>
         (\<not> set (item_paths r) \<subseteq> current_files s a \<longrightarrow>
            selectedFilesByCategory s' a = Some (set (item_paths r)) \<and>
            selectedCategories s' = insert a (selectedCategories s))"
proof -
  have s': "s' = files_a cfg a s"
    using step_render(2) [OF assms(4,7)] assms(3,5) by (simp add: handle_files_def)
  have "files_ok cfg s"
    using inv_reachable [OF assms(1,2)] by (simp add: inv_def)
  then have sub: "current_files s a \<subseteq> set (item_paths r)"
    using current_files_subset [of cfg s a] find_result_paths [OF assms(6)] by simp
  show ?thesis
    unfolding s' using assms(6) sub
    by (auto simp: files_a_def Let_def list_all_iff)
qed

theorem files_select_all_witness:
  "wf_config one_category \<and>
   reachable one_category (state_after one_category [KeyRight]) \<and>
   length (activeGroupedFiles (projr (render one_category (state_after one_category [KeyRight])))) = 7 \<and>
   selectedFilesByCategory (state_after one_category [KeyRight, KeyA]) LargeFiles =
     Some (set (item_paths (mk_result LargeFiles six_files))) \<and>
   selectedCategories (state_after one_category [KeyRight, KeyA]) =
     insert LargeFiles (selectedCategories (state_after one_category [KeyRight]))"
proof -
  let ?s = "state_after one_category [KeyRight]"
  let ?v = "projr (render one_category ?s)"
  have w: "wf_config one_category"
    by code_simp
  have "is_next (run one_category initialState [KeyRight])"
    by code_simp
  then have re: "reachable one_category ?s"
    by (rule reachable_state_after)
  have p: "activePane ?s = Files"
    by code_simp
  have "\<not> isl (render one_category ?s)"
    by code_simp
  then have r: "render one_category ?s = Inr ?v"
    by (rule render_projr)
  have a: "activeCategory ?v = Some LargeFiles"
    by code_simp
  have f: "find (\<lambda>r. result_id r = LargeFiles) (results one_category) =
      Some (mk_result LargeFiles six_files)"
    by (simp add: one_category_def mk_result_def result_id_def)
  have n: "is_next (run one_category initialState ([KeyRight] @ [KeyA]))"
    by code_simp
  have ns: "\<not> set (item_paths (mk_result LargeFiles six_files)) \<subseteq> current_files ?s LargeFiles"
    by code_simp
  have l: "length (activeGroupedFiles ?v) = 7"
    by code_simp
  show ?thesis
    using files_select_all [OF w re p r a f step_state_after [OF n]] w re ns l by simp
qed

section \<open>The category caret\<close>

text \<open>
  Claim C10. The prompt reads \<^verbatim>\<open>results[categoryCaret]\<close> without a guard at every render.
  With a non-empty results list the caret of every reachable state is an index of the list, so
  every render and every key succeed; with the empty list the first render, and with it every
  key, fails. Up and down clamp the caret to the list without wrapping.
\<close>

theorem category_caret_guard:
  "(results cfg \<noteq> [] \<longrightarrow>
      (\<forall>s. reachable cfg s \<longrightarrow>
         0 \<le> categoryCaret s \<and> categoryCaret s < int (length (results cfg)) \<and>
         \<not> isl (render cfg s) \<and> (\<forall>key. \<not> isl (step cfg s key)))) \<and>
   (results cfg = [] \<longrightarrow>
      render cfg initialState = Inl TypeError \<and>
      (\<forall>key. step cfg initialState key = Inl TypeError)) \<and>
   (\<forall>s s'. activePane s = Categories \<longrightarrow>
      (step cfg s KeyUp = Inr (Next s') \<longrightarrow>
         categoryCaret s' = max 0 (categoryCaret s - 1)) \<and>
      (step cfg s KeyDown = Inr (Next s') \<longrightarrow>
         categoryCaret s' = min (int (length (results cfg)) - 1) (categoryCaret s + 1)))"
proof (intro conjI impI allI)
  fix s assume ne: "results cfg \<noteq> []" and re: "reachable cfg s"
  have "caret_ok cfg initialState"
    by (simp add: caret_ok_def initialState_def)
  then have "caret_ok cfg s"
    using re caret_ok_run by (auto simp: reachable_def)
  then show c: "0 \<le> categoryCaret s" "categoryCaret s < int (length (results cfg))"
    using ne by (simp_all add: caret_ok_def)
  then show r: "\<not> isl (render cfg s)"
    by (simp add: render_def at_def Let_def)
  fix key
  show "\<not> isl (step cfg s key)"
    using r by (cases "render cfg s") (simp_all add: step_def)
next
  assume e: "results cfg = []"
  then show r: "render cfg initialState = Inl TypeError"
    by (simp add: render_def at_def Let_def)
  fix key
  show "step cfg initialState key = Inl TypeError"
    using r by (simp add: step_def)
next
  fix s s' assume p: "activePane s = Categories" and st: "step cfg s KeyUp = Inr (Next s')"
  obtain v where v: "render cfg s = Inr v"
    using step_Next [OF st] by blast
  show "categoryCaret s' = max 0 (categoryCaret s - 1)"
    using step_render(2) [OF v st] p by (simp add: caret_handle_categories)
next
  fix s s' assume p: "activePane s = Categories" and st: "step cfg s KeyDown = Inr (Next s')"
  obtain v where v: "render cfg s = Inr v"
    using step_Next [OF st] by blast
  show "categoryCaret s' = min (int (length (results cfg)) - 1) (categoryCaret s + 1)"
    using step_render(2) [OF v st] p by (simp add: caret_handle_categories)
qed

theorem category_caret_guard_witness:
  "results three_categories \<noteq> [] \<and>
   reachable three_categories (state_after three_categories [KeyDown, KeyDown, KeyDown, KeyDown]) \<and>
   categoryCaret (state_after three_categories [KeyDown, KeyDown, KeyDown, KeyDown]) = 2 \<and>
   categoryCaret (state_after three_categories [KeyDown, KeyDown, KeyDown, KeyDown])
     < int (length (results three_categories)) \<and>
   \<not> isl (render three_categories (state_after three_categories [KeyDown, KeyDown, KeyDown, KeyDown])) \<and>
   results \<lparr>results = [], categoriesWithFileSelection = {}\<rparr> = [] \<and>
   render \<lparr>results = [], categoriesWithFileSelection = {}\<rparr> initialState = Inl TypeError"
proof -
  let ?s = "state_after three_categories [KeyDown, KeyDown, KeyDown, KeyDown]"
  have ne: "results three_categories \<noteq> []"
    by (simp add: three_categories_def)
  have "is_next (run three_categories initialState [KeyDown, KeyDown, KeyDown, KeyDown])"
    by code_simp
  then have re: "reachable three_categories ?s"
    by (rule reachable_state_after)
  have c: "categoryCaret ?s = 2"
    by code_simp
  have e: "results \<lparr>results = [], categoriesWithFileSelection = {}\<rparr> = []"
    by simp
  have "categoryCaret ?s < int (length (results three_categories)) \<and>
      \<not> isl (render three_categories ?s)"
    using category_caret_guard [of three_categories] ne re by blast
  moreover have "render \<lparr>results = [], categoriesWithFileSelection = {}\<rparr> initialState
      = Inl TypeError"
    using category_caret_guard [of "\<lparr>results = [], categoriesWithFileSelection = {}\<rparr>"] e
    by blast
  ultimately show ?thesis
    using ne re c e by simp
qed

section \<open>The directory toggle and hidden items\<close>

text \<open>
  Claim C2, at a failing input. One category, one directory \<^verbatim>\<open>/d\<close> with six files, the
  default limit of five: after entering the files pane the caret is on \<^verbatim>\<open>/d/f1\<close> and
  nothing is selected; \<^verbatim>\<open>d\<close> selects the five files shown and leaves \<^verbatim>\<open>/d/f6\<close>, the
  item of the same directory hidden behind the expand hint, unselected.
\<close>

theorem dir_toggle_misses_hidden_items:
  "map item_dir six_files = [''/d'', ''/d'', ''/d'', ''/d'', ''/d'', ''/d''] \<and>
   is_next (run one_category initialState [KeyRight, KeyD]) \<and>
   activePane (state_after one_category [KeyRight]) = Files \<and>
   map_option row_item
     (at (activeGroupedFiles (projr (render one_category (state_after one_category [KeyRight]))))
        (active_caret (state_after one_category [KeyRight]) LargeFiles))
     = Some (Some (mk_item ''/d/f1'' 60)) \<and>
   current_files (state_after one_category [KeyRight]) LargeFiles = {} \<and>
   current_files (state_after one_category [KeyRight, KeyD]) LargeFiles =
     {''/d/f1'', ''/d/f2'', ''/d/f3'', ''/d/f4'', ''/d/f5''} \<and>
   ''/d/f6'' \<notin> current_files (state_after one_category [KeyRight, KeyD]) LargeFiles"
  by code_simp

section \<open>Select-all twice\<close>

lemma list_all_False: "list_all (\<lambda>c. False) xs \<longleftrightarrow> xs = []"
  by (cases xs) auto

text \<open>
  Claim C3, as amended. Two presses of \<^verbatim>\<open>a\<close> in a row give back
  \<^const>\<open>selectedCategories\<close> and \<^const>\<open>selectedFilesByCategory\<close> exactly when the first
  press starts from an end state of the toggle (\<^const>\<open>all_or_nothing\<close>): in the categories
  pane nothing selected or everything selected, in the files pane the active category not
  selected with an empty recorded file set or selected with all of its items.
\<close>

theorem select_all_twice:
  assumes "all_or_nothing cfg s"
    and "step cfg s KeyA = Inr (Next s1)"
    and "step cfg s1 KeyA = Inr (Next s2)"
  shows "selectedCategories s2 = selectedCategories s \<and>
         selectedFilesByCategory s2 = selectedFilesByCategory s"
proof (cases "activePane s")
  case Categories
  obtain v where v: "render cfg s = Inr v"
    using step_Next [OF assms(2)] by blast
  obtain v1 where v1: "render cfg s1 = Inr v1"
    using step_Next [OF assms(3)] by blast
  have ne: "results cfg \<noteq> []"
    using render_Inr(1) [OF v] by (auto simp: at_def split: if_splits)
  have s1: "s1 = categories_a cfg s"
    using step_render(2) [OF v assms(2)] Categories by (simp add: handle_categories_def)
  then have "activePane s1 = Categories"
    using Categories by (simp add: categories_a_def Let_def)
  then have s2: "s2 = categories_a cfg s1"
    using step_render(2) [OF v1 assms(3)] by (simp add: handle_categories_def)
  from assms(1) Categories
  have "(selectedCategories s = {} \<and> selectedFilesByCategory s = Map.empty)
          \<or> (selectedCategories s = set (map result_id (results cfg))
              \<and> selectedFilesByCategory s = all_files_map cfg)"
    by (simp add: all_or_nothing_def)
  then show ?thesis
  proof
    assume e: "selectedCategories s = {} \<and> selectedFilesByCategory s = Map.empty"
    then have "selectedCategories s1 = set (map result_id (results cfg))"
      using ne unfolding s1 by (simp add: categories_a_def Let_def list_all_False)
    then show ?thesis
      using e unfolding s2 by (simp add: categories_a_def Let_def list_all_iff)
  next
    assume f: "selectedCategories s = set (map result_id (results cfg))
              \<and> selectedFilesByCategory s = all_files_map cfg"
    then have "selectedCategories s1 = {}"
      unfolding s1 by (simp add: categories_a_def Let_def list_all_iff)
    then show ?thesis
      using f ne unfolding s2
      by (simp add: categories_a_def Let_def list_all_False all_files_map_def)
  qed
next
  case Files
  obtain v where v: "render cfg s = Inr v"
    using step_Next [OF assms(2)] by blast
  obtain v1 where v1: "render cfg s1 = Inr v1"
    using step_Next [OF assms(3)] by blast
  from assms(1) Files obtain a r where
    a: "getActiveCategory (categoryFilePickerStates s) = Some a"
    and r: "find (\<lambda>r. result_id r = a) (results cfg) = Some r"
    and c: "(a \<notin> selectedCategories s \<and> selectedFilesByCategory s a = Some {})
            \<or> (items r \<noteq> [] \<and> a \<in> selectedCategories s
                \<and> selectedFilesByCategory s a = Some (set (item_paths r)))"
    by (auto simp: all_or_nothing_def split: option.splits)
  have s1: "s1 = files_a cfg a s"
    using step_render(2) [OF v assms(2)] Files render_Inr(2) [OF v] a
    by (simp add: handle_files_def)
  then have same: "categoryFilePickerStates s1 = categoryFilePickerStates s"
    "categoryCaret s1 = categoryCaret s" "activePane s1 = Files"
    using r Files by (simp_all add: files_a_def Let_def)
  have "activeCategory v1 = Some a"
    using render_Inr(2) [OF v1] same(1) a by simp
  then have s2: "s2 = files_a cfg a s1"
    using step_render(2) [OF v1 assms(3)] same(3) by (simp add: handle_files_def)
  have ne: "items r \<noteq> [] \<Longrightarrow> item_paths r \<noteq> []"
    by (simp add: item_paths_def)
  from c show ?thesis
  proof
    assume n: "a \<notin> selectedCategories s \<and> selectedFilesByCategory s a = Some {}"
    show ?thesis
    proof (cases "item_paths r = []")
      case True
      then show ?thesis
        using n r unfolding s2 s1
        by (auto simp: files_a_def Let_def current_files_def fun_eq_iff)
    next
      case False
      then show ?thesis
        using n r unfolding s2 s1
        by (auto simp: files_a_def Let_def current_files_def list_all_False list_all_iff
            fun_eq_iff)
    qed
  next
    assume f: "items r \<noteq> [] \<and> a \<in> selectedCategories s
                \<and> selectedFilesByCategory s a = Some (set (item_paths r))"
    then show ?thesis
      using r ne unfolding s2 s1
      by (auto simp: files_a_def Let_def current_files_def list_all_False list_all_iff
          fun_eq_iff)
  qed
qed

theorem select_all_twice_witness:
  "all_or_nothing three_categories initialState \<and>
   selectedCategories (state_after three_categories [KeyA]) = {LargeFiles, Downloads, Trash} \<and>
   selectedCategories (state_after three_categories [KeyA, KeyA]) = selectedCategories initialState \<and>
   selectedFilesByCategory (state_after three_categories [KeyA, KeyA]) =
     selectedFilesByCategory initialState"
proof -
  have s0: "state_after three_categories [] = initialState"
    by (simp add: state_after_def)
  have a: "all_or_nothing three_categories initialState"
    by (simp add: all_or_nothing_def initialState_def)
  have n1: "is_next (run three_categories initialState ([] @ [KeyA]))"
    by code_simp
  have n2: "is_next (run three_categories initialState ([KeyA] @ [KeyA]))"
    by code_simp
  have m: "selectedCategories (state_after three_categories [KeyA]) = {LargeFiles, Downloads, Trash}"
    by code_simp
  have st1: "step three_categories initialState KeyA = Inr (Next (state_after three_categories [KeyA]))"
    using step_state_after [OF n1] s0 by simp
  show ?thesis
    using select_all_twice [OF a st1 step_state_after [OF n2]] a m by simp
qed

text \<open>
  The claim as stated fails from a partial selection: with five of six files selected and the
  category selected, the first \<^verbatim>\<open>a\<close> selects all six and the second clears them and
  deselects the category.
\<close>

theorem select_all_twice_counterexample:
  "reachable one_category (state_after one_category [KeySpace, KeyRight, KeySpace]) \<and>
   step one_category (state_after one_category [KeySpace, KeyRight, KeySpace]) KeyA =
     Inr (Next (state_after one_category [KeySpace, KeyRight, KeySpace, KeyA])) \<and>
   step one_category (state_after one_category [KeySpace, KeyRight, KeySpace, KeyA]) KeyA =
     Inr (Next (state_after one_category [KeySpace, KeyRight, KeySpace, KeyA, KeyA])) \<and>
   selectedCategories (state_after one_category [KeySpace, KeyRight, KeySpace]) = {LargeFiles} \<and>
   selectedCategories (state_after one_category [KeySpace, KeyRight, KeySpace, KeyA, KeyA]) = {} \<and>
   selectedFilesByCategory (state_after one_category [KeySpace, KeyRight, KeySpace]) LargeFiles =
     Some {''/d/f2'', ''/d/f3'', ''/d/f4'', ''/d/f5'', ''/d/f6''} \<and>
   selectedFilesByCategory (state_after one_category [KeySpace, KeyRight, KeySpace, KeyA, KeyA])
     LargeFiles = Some {}"
proof -
  have "is_next (run one_category initialState [KeySpace, KeyRight, KeySpace])"
    by code_simp
  then have re: "reachable one_category (state_after one_category [KeySpace, KeyRight, KeySpace])"
    by (rule reachable_state_after)
  have n1: "is_next (run one_category initialState ([KeySpace, KeyRight, KeySpace] @ [KeyA]))"
    by code_simp
  have n2: "is_next (run one_category initialState ([KeySpace, KeyRight, KeySpace, KeyA] @ [KeyA]))"
    by code_simp
  have v: "selectedCategories (state_after one_category [KeySpace, KeyRight, KeySpace]) = {LargeFiles}"
    "selectedCategories (state_after one_category [KeySpace, KeyRight, KeySpace, KeyA, KeyA]) = {}"
    "selectedFilesByCategory (state_after one_category [KeySpace, KeyRight, KeySpace]) LargeFiles =
       Some {''/d/f2'', ''/d/f3'', ''/d/f4'', ''/d/f5'', ''/d/f6''}"
    "selectedFilesByCategory (state_after one_category [KeySpace, KeyRight, KeySpace, KeyA, KeyA])
       LargeFiles = Some {}"
    by code_simp+
  show ?thesis
    using re step_state_after [OF n1] step_state_after [OF n2] v by simp
qed

section \<open>Rows under a larger limit, the skipping loops\<close>

lemma groupByDirectory_distinct: "distinct (map group_path (groupByDirectory fs))"
proof -
  have "mset (groupByDirectory fs) = mset (map make_group (group_entries fs))"
    by (simp add: groupByDirectory_def mset_js_sort)
  then have "mset (map group_path (groupByDirectory fs)) =
      mset (map group_path (map make_group (group_entries fs)))"
    by (metis mset_map)
  also have "map group_path (map make_group (group_entries fs)) = map fst (group_entries fs)"
    by (simp add: make_group_def Let_def comp_def)
  finally have "mset (map group_path (groupByDirectory fs)) = mset (first_occ (map item_dir fs))"
    by (simp add: keys_group_entries)
  then show ?thesis
    using distinct_first_occ [of "map item_dir fs"] by (metis mset_eq_imp_distinct_iff)
qed

lemma groupByDirectory_nonempty_files:
  "g \<in> set (groupByDirectory fs) \<Longrightarrow> files g \<noteq> []"
  using groupByDirectory_member [of g fs] make_group_entry(3) by blast

lemma group_rows_nth:
  "group_rows lg ! 0 = header_row (lg_group lg)"
  "n < shown lg \<Longrightarrow> n < length (files (lg_group lg)) \<Longrightarrow>
     group_rows lg ! Suc n = file_row (lg_group lg) (files (lg_group lg) ! n)"
  by (simp_all add: group_rows_def nth_append)

lemma group_rows_length:
  "length (group_rows lg) =
     1 + min (length (files (lg_group lg))) (shown lg) + (if hasMore lg then 1 else 0)"
  by (simp add: group_rows_def)

lemma group_rows_selectable_index:
  assumes "n < length (group_rows lg)" and "selectable (group_rows lg ! n)"
  shows "\<exists>m. n = Suc m \<and> m < shown lg \<and> m < length (files (lg_group lg))"
proof (cases n)
  case 0
  then show ?thesis using assms(2) by (simp add: group_rows_def header_row_def)
next
  case (Suc m)
  show ?thesis
  proof (cases "m < min (length (files (lg_group lg))) (shown lg)")
    case True
    then show ?thesis using Suc by simp
  next
    case False
    then have "group_rows lg ! n = hint_row (lg_group lg) (visibleCount lg)"
      using Suc assms(1)
      by (auto simp: group_rows_def nth_append split: if_splits)
    then show ?thesis using assms(2) by (simp add: hint_row_def)
  qed
qed

lemma limited_group: "lg_group (limited L d g) = g"
  by (simp add: limited_def Let_def)

lemma shown_limited:
  "shown (limited L d g) =
     (case L (group_path g) of
        None \<Rightarrow> nat (min d (int (length (files g))))
      | Some (NumberLimit n) \<Rightarrow> nat (min n (int (length (files g))))
      | Some StringLimit \<Rightarrow> 0)"
  by (simp add: shown_def limited_def Let_def split: option.splits LimitValue.splits)

lemma limited_other: "L' (group_path g) = L (group_path g) \<Longrightarrow> limited L' d g = limited L d g"
  by (simp add: limited_def)

text \<open>A selectable row is the \<open>m\<close>-th visible file of one of the groups.\<close>

lemma locate_row:
  assumes "n < length (concat (map (\<lambda>g. group_rows (limited L d g)) gs))"
    and "selectable (concat (map (\<lambda>g. group_rows (limited L d g)) gs) ! n)"
  shows "\<exists>pre g post m. gs = pre @ g # post \<and>
           n = length (concat (map (\<lambda>g. group_rows (limited L d g)) pre)) + Suc m \<and>
           m < shown (limited L d g) \<and> m < length (files g)"
  using assms
proof (induction gs arbitrary: n)
  case Nil
  then show ?case by simp
next
  case (Cons g gs)
  let ?b = "group_rows (limited L d g)"
  let ?rest = "concat (map (\<lambda>g. group_rows (limited L d g)) gs)"
  have split: "concat (map (\<lambda>g. group_rows (limited L d g)) (g # gs)) = ?b @ ?rest"
    by simp
  note len = Cons.prems(1) [unfolded split]
  note sel = Cons.prems(2) [unfolded split]
  show ?case
  proof (cases "n < length ?b")
    case True
    then have row: "(?b @ ?rest) ! n = ?b ! n"
      by (simp only: nth_append if_True)
    have selb: "selectable (?b ! n)"
      using sel unfolding row .
    obtain m where m: "n = Suc m" "m < shown (limited L d g)" "m < length (files g)"
      using group_rows_selectable_index [OF True selb] limited_group [of L d g] by auto
    have "g # gs = [] @ g # gs \<and>
        n = length (concat (map (\<lambda>g. group_rows (limited L d g)) [])) + Suc m \<and>
        m < shown (limited L d g) \<and> m < length (files g)"
      using m by simp
    then show ?thesis by blast
  next
    case False
    let ?i = "n - length ?b"
    have row: "(?b @ ?rest) ! n = ?rest ! ?i"
      using False by (simp only: nth_append if_False)
    have i: "?i < length ?rest"
      using False len unfolding length_append by linarith
    have seli: "selectable (?rest ! ?i)"
      using sel unfolding row .
    obtain pre g' post m where p: "gs = pre @ g' # post"
      "?i = length (concat (map (\<lambda>g. group_rows (limited L d g)) pre)) + Suc m"
      "m < shown (limited L d g')" "m < length (files g')"
      using Cons.IH [OF i seli] by blast
    have n: "n = length ?b + ?i"
      using False by simp
    have "g # gs = (g # pre) @ g' # post \<and>
        n = length (concat (map (\<lambda>g. group_rows (limited L d g)) (g # pre))) + Suc m \<and>
        m < shown (limited L d g') \<and> m < length (files g')"
      using p(1,3,4) n unfolding p(2) by simp
    then show ?thesis by blast
  qed
qed

lemma located_row:
  assumes "gs = pre @ g # post" and "m < shown (limited L d g)" and "m < length (files g)"
  shows "length (concat (map (\<lambda>g. group_rows (limited L d g)) pre)) + Suc m
           < length (concat (map (\<lambda>g. group_rows (limited L d g)) gs))"
    and "concat (map (\<lambda>g. group_rows (limited L d g)) gs)
           ! (length (concat (map (\<lambda>g. group_rows (limited L d g)) pre)) + Suc m)
         = file_row g (files g ! m)"
proof -
  let ?B = "\<lambda>g. group_rows (limited L d g)"
  have split: "concat (map ?B gs) = concat (map ?B pre) @ (?B g @ concat (map ?B post))"
    unfolding assms(1) by simp
  have len: "Suc m < length (?B g)"
    using assms(2,3) by (simp add: group_rows_length limited_group)
  have nth: "?B g ! Suc m = file_row g (files g ! m)"
    using group_rows_nth(2) [of m "limited L d g"] assms(2,3) by (simp add: limited_group)
  show "length (concat (map ?B pre)) + Suc m < length (concat (map ?B gs))"
    unfolding split length_append using len by linarith
  have "(concat (map ?B pre) @ (?B g @ concat (map ?B post))) ! (length (concat (map ?B pre)) + Suc m)
      = (?B g @ concat (map ?B post)) ! Suc m"
    by (rule nth_append_length_plus)
  also have "\<dots> = ?B g ! Suc m"
    using len by (simp only: nth_append if_True)
  finally show "concat (map ?B gs) ! (length (concat (map ?B pre)) + Suc m)
      = file_row g (files g ! m)"
    unfolding split nth .
qed

text \<open>
  A change of the limit of one directory keeps the rows of the directories before it, and
  the \<open>m\<close>-th file of the directory itself while it still shows more than \<open>m\<close> files.
\<close>

lemma same_prefix:
  assumes "distinct (map group_path (pre @ g # post))"
    and "\<And>p. p \<noteq> group_path g \<Longrightarrow> L' p = L p"
  shows "map (\<lambda>g. group_rows (limited L' d g)) pre = map (\<lambda>g. group_rows (limited L d g)) pre"
proof (rule map_cong [OF refl])
  fix g'
  assume "g' \<in> set pre"
  then have "group_path g' \<in> group_path ` set pre"
    by (rule imageI)
  moreover have "group_path g \<notin> group_path ` set pre"
    using assms(1) by simp
  ultimately have "group_path g' \<noteq> group_path g"
    by metis
  then have "L' (group_path g') = L (group_path g')"
    by (rule assms(2))
  then show "group_rows (limited L' d g') = group_rows (limited L d g')"
    using limited_other [of L' g' L d] by simp
qed

lemma change_keeps_row:
  assumes "distinct (map group_path gs)" and "gs = pre @ g # post"
    and "m < shown (limited L' d g)" and "m < length (files g)"
    and "\<And>p. p \<noteq> group_path g \<Longrightarrow> L' p = L p"
  shows "length (concat (map (\<lambda>g. group_rows (limited L d g)) pre)) + Suc m
           < length (concat (map (\<lambda>g. group_rows (limited L' d g)) gs))"
    and "concat (map (\<lambda>g. group_rows (limited L' d g)) gs)
           ! (length (concat (map (\<lambda>g. group_rows (limited L d g)) pre)) + Suc m)
         = file_row g (files g ! m)"
proof -
  have pre: "map (\<lambda>g. group_rows (limited L d g)) pre = map (\<lambda>g. group_rows (limited L' d g)) pre"
    using same_prefix [OF assms(1) [unfolded assms(2)] assms(5), where d = d] by simp
  show "length (concat (map (\<lambda>g. group_rows (limited L d g)) pre)) + Suc m
           < length (concat (map (\<lambda>g. group_rows (limited L' d g)) gs))"
    unfolding pre using assms(2,3,4) by (rule located_row(1))
  show "concat (map (\<lambda>g. group_rows (limited L' d g)) gs)
           ! (length (concat (map (\<lambda>g. group_rows (limited L d g)) pre)) + Suc m)
         = file_row g (files g ! m)"
    unfolding pre using assms(2,3,4) by (rule located_row(2))
qed

lemma located_header:
  assumes "gs = pre @ g # post"
  shows "length (concat (map (\<lambda>g. group_rows (limited L d g)) pre))
           < length (concat (map (\<lambda>g. group_rows (limited L d g)) gs))"
    and "concat (map (\<lambda>g. group_rows (limited L d g)) gs)
           ! length (concat (map (\<lambda>g. group_rows (limited L d g)) pre))
         = header_row g"
proof -
  let ?B = "\<lambda>g. group_rows (limited L d g)"
  have split: "concat (map ?B gs) = concat (map ?B pre) @ (?B g @ concat (map ?B post))"
    unfolding assms(1) by simp
  have len: "0 < length (?B g)"
    by (simp add: group_rows_length)
  show "length (concat (map ?B pre)) < length (concat (map ?B gs))"
    unfolding split length_append using len by linarith
  have "(concat (map ?B pre) @ (?B g @ concat (map ?B post))) ! (length (concat (map ?B pre)) + 0)
      = (?B g @ concat (map ?B post)) ! 0"
    by (rule nth_append_length_plus)
  also have "\<dots> = ?B g ! 0"
    using len by (simp only: nth_append if_True)
  also have "\<dots> = header_row g"
    by (simp add: group_rows_nth(1) limited_group)
  finally show "concat (map ?B gs) ! length (concat (map ?B pre)) = header_row g"
    unfolding split by simp
qed

text \<open>
  With a row that is not a file row among the five rows above it, a file is one of the first
  five of its directory.
\<close>

lemma rank_bound:
  assumes "gs = pre @ g # post" and "m < shown (limited L d g)" and "m < length (files g)"
    and "within_default_limit (concat (map (\<lambda>g. group_rows (limited L d g)) gs))
           (int (length (concat (map (\<lambda>g. group_rows (limited L d g)) pre)) + Suc m))"
  shows "m < 5"
proof (rule ccontr)
  let ?rows = "concat (map (\<lambda>g. group_rows (limited L d g)) gs)"
  let ?base = "length (concat (map (\<lambda>g. group_rows (limited L d g)) pre))"
  assume "\<not> m < 5"
  then have m5: "5 \<le> m" by simp
  obtain j where j: "1 \<le> j" "j \<le> 5"
    and nr: "\<not> row_selectable (at ?rows (int (?base + Suc m) - j))"
    using assms(4) by (auto simp: within_default_limit_def list_ex_iff DIR_VIS_CHILD_LIMIT_def)
  let ?m' = "m - nat j"
  have m': "?m' < shown (limited L d g)" "?m' < length (files g)"
    using assms(2,3) by simp_all
  have idx: "int (?base + Suc m) - j = int (?base + Suc ?m')"
    using j m5 by simp
  note l = located_row [OF assms(1) m']
  have "at ?rows (int (?base + Suc ?m')) = Some (file_row g (files g ! ?m'))"
    by (simp only: at_Some_iff nat_int of_nat_0_le_iff l simp_thms)
  then have "row_selectable (at ?rows (int (?base + Suc ?m')))"
    by (simp add: row_selectable_def file_row_def)
  then show False
    using nr unfolding idx by simp
qed

text \<open>And conversely: the condition singles out the first five files of a directory.\<close>

lemma within_default_limit_iff:
  assumes "gs = pre @ g # post" and "m < shown (limited L d g)" and "m < length (files g)"
  shows "within_default_limit (concat (map (\<lambda>g. group_rows (limited L d g)) gs))
           (int (length (concat (map (\<lambda>g. group_rows (limited L d g)) pre)) + Suc m))
         \<longleftrightarrow> m < 5"
proof
  assume "within_default_limit (concat (map (\<lambda>g. group_rows (limited L d g)) gs))
           (int (length (concat (map (\<lambda>g. group_rows (limited L d g)) pre)) + Suc m))"
  with assms show "m < 5"
    by (rule rank_bound)
next
  let ?rows = "concat (map (\<lambda>g. group_rows (limited L d g)) gs)"
  let ?base = "length (concat (map (\<lambda>g. group_rows (limited L d g)) pre))"
  assume m: "m < 5"
  have idx: "int (?base + Suc m) - (int m + 1) = int ?base"
    by simp
  note l = located_header [OF assms(1), of L d]
  have "at ?rows (int ?base) = Some (header_row g)"
    by (simp only: at_Some_iff nat_int of_nat_0_le_iff l simp_thms)
  then have "\<not> row_selectable (at ?rows (int (?base + Suc m) - (int m + 1)))"
    unfolding idx by (simp add: row_selectable_def header_row_def)
  moreover have "int m + 1 \<in> set [1..DIR_VIS_CHILD_LIMIT]"
    using m by (simp add: DIR_VIS_CHILD_LIMIT_def)
  ultimately show "within_default_limit ?rows (int (?base + Suc m))"
    unfolding within_default_limit_def list_ex_iff by blast
qed

lemma groupFilesByDirectory_locate:
  assumes "at (groupFilesByDirectory fs L d) c = Some row" and "selectable row"
  shows "\<exists>pre g post m. groupByDirectory fs = pre @ g # post \<and>
           c = int (length (concat (map (\<lambda>g. group_rows (limited L d g)) pre)) + Suc m) \<and>
           m < shown (limited L d g) \<and> m < length (files g) \<and>
           row = file_row g (files g ! m)"
proof -
  let ?rows = "concat (map (\<lambda>g. group_rows (limited L d g)) (groupByDirectory fs))"
  have c: "0 \<le> c" "nat c < length ?rows" "?rows ! nat c = row"
    using assms(1) by (simp_all add: at_Some_iff groupFilesByDirectory_concat)
  have sel: "selectable (?rows ! nat c)"
    using assms(2) c(3) by simp
  obtain pre g post m where p: "groupByDirectory fs = pre @ g # post"
    "nat c = length (concat (map (\<lambda>g. group_rows (limited L d g)) pre)) + Suc m"
    "m < shown (limited L d g)" "m < length (files g)"
    using locate_row [OF c(2) sel] by blast
  have "c = int (nat c)"
    using c(1) by simp
  then have c': "c = int (length (concat (map (\<lambda>g. group_rows (limited L d g)) pre)) + Suc m)"
    unfolding p(2) .
  have "row = file_row g (files g ! m)"
    using located_row(2) [OF p(1,3,4)] c(3) unfolding p(2) by simp
  then show ?thesis
    using p(1,3,4) c' by blast
qed

lemma groupFilesByDirectory_relimit:
  assumes "at (groupFilesByDirectory fs L d) c = Some row" and "selectable row"
    and "directoryKey row = Some k"
    and "\<And>p. p \<noteq> k \<Longrightarrow> L' p = L p"
    and "\<And>pre g post m. groupByDirectory fs = pre @ g # post \<Longrightarrow> group_path g = k \<Longrightarrow>
           c = int (length (concat (map (\<lambda>g. group_rows (limited L d g)) pre)) + Suc m) \<Longrightarrow>
           m < shown (limited L d g) \<Longrightarrow> m < length (files g) \<Longrightarrow>
           m < shown (limited L' d g)"
  shows "at (groupFilesByDirectory fs L' d) c = Some row"
proof -
  obtain pre g post m where p: "groupByDirectory fs = pre @ g # post"
    "c = int (length (concat (map (\<lambda>g. group_rows (limited L d g)) pre)) + Suc m)"
    "m < shown (limited L d g)" "m < length (files g)"
    and row: "row = file_row g (files g ! m)"
    using groupFilesByDirectory_locate [OF assms(1,2)] by blast
  have k: "group_path g = k"
    using assms(3) unfolding row by (simp add: file_row_def)
  have m': "m < shown (limited L' d g)"
    using assms(5) [OF p(1) k p(2,3,4)] .
  have other: "\<And>p. p \<noteq> group_path g \<Longrightarrow> L' p = L p"
    using assms(4) unfolding k .
  note r = change_keeps_row [OF groupByDirectory_distinct p(1) m' p(4) other]
  show ?thesis
    unfolding groupFilesByDirectory_concat p(2) row
    by (simp only: at_Some_iff nat_int of_nat_0_le_iff r simp_thms)
qed

lemma groupFilesByDirectory_expand:
  assumes "at (groupFilesByDirectory fs L 5) c = Some row" and "selectable row"
    and "directoryKey row = Some k"
    and "\<not> (L k = None \<and> k \<in> set object_prototype_keys)"
  shows "at (groupFilesByDirectory fs (L(k \<mapsto> expanded_limit L k)) 5) c = Some row"
proof (rule groupFilesByDirectory_relimit [OF assms(1,2,3)])
  fix p
  assume "p \<noteq> k"
  then show "(L(k \<mapsto> expanded_limit L k)) p = L p" by simp
next
  fix pre g post m
  assume k: "group_path g = k" and m: "m < shown (limited L 5 g)"
  have "shown (limited L 5 g) \<le> shown (limited (L(k \<mapsto> expanded_limit L k)) 5 g)"
    using assms(4) unfolding shown_limited k
    by (auto simp: expanded_limit_def EXPAND_INCREMENT_def DIR_VIS_CHILD_LIMIT_def
        split: option.splits LimitValue.splits)
  then show "m < shown (limited (L(k \<mapsto> expanded_limit L k)) 5 g)"
    using m by simp
qed

lemma groupFilesByDirectory_collapse:
  assumes "at (groupFilesByDirectory fs L d) c = Some row" and "selectable row"
    and "directoryKey row = Some k"
    and "within_default_limit (groupFilesByDirectory fs L d) c"
  shows "at (groupFilesByDirectory fs (L(k \<mapsto> NumberLimit DIR_VIS_CHILD_LIMIT)) d) c = Some row"
proof (rule groupFilesByDirectory_relimit [OF assms(1,2,3)])
  fix p
  assume "p \<noteq> k"
  then show "(L(k \<mapsto> NumberLimit DIR_VIS_CHILD_LIMIT)) p = L p" by simp
next
  fix pre g post m
  assume p: "groupByDirectory fs = pre @ g # post" and k: "group_path g = k"
    and c: "c = int (length (concat (map (\<lambda>g. group_rows (limited L d g)) pre)) + Suc m)"
    and m: "m < shown (limited L d g)" "m < length (files g)"
  have "m < 5"
    using rank_bound [OF p m] assms(4) unfolding groupFilesByDirectory_concat p c .
  then show "m < shown (limited (L(k \<mapsto> NumberLimit DIR_VIS_CHILD_LIMIT)) d g)"
    using m(2) unfolding shown_limited k by (simp add: DIR_VIS_CHILD_LIMIT_def)
qed

lemma groupFilesByDirectory_has_selectable:
  assumes "groupFilesByDirectory fs L d \<noteq> []"
    and "\<And>k l. L k = Some l \<Longrightarrow> \<exists>n. l = NumberLimit n \<and> 0 < n" and "0 < d"
  shows "\<exists>row \<in> set (groupFilesByDirectory fs L d). selectable row"
proof -
  obtain g gs where gs: "groupByDirectory fs = g # gs"
    using assms(1) by (cases "groupByDirectory fs") (auto simp: groupFilesByDirectory_concat)
  then have ne: "files g \<noteq> []"
    using groupByDirectory_nonempty_files [of g fs] by simp
  have sh: "0 < shown (limited L d g)"
  proof (cases "L (group_path g)")
    case None
    then show ?thesis using ne assms(3) by (simp add: shown_limited)
  next
    case (Some l)
    then obtain n where "l = NumberLimit n" and "0 < n"
      using assms(2) by blast
    then show ?thesis using ne Some by (simp add: shown_limited)
  qed
  then have len: "Suc 0 < length (group_rows (limited L d g))"
    and nth: "group_rows (limited L d g) ! Suc 0 = file_row g (files g ! 0)"
    using ne group_rows_nth(2) [of 0 "limited L d g"]
    by (simp_all add: group_rows_length limited_group)
  have "group_rows (limited L d g) ! Suc 0 \<in> set (group_rows (limited L d g))"
    using len by (rule nth_mem)
  then have "\<exists>row \<in> set (group_rows (limited L d g)). selectable row"
    unfolding nth by (rule bexI [rotated]) (simp add: file_row_def)
  then show ?thesis
    using gs by (auto simp: groupFilesByDirectory_concat)
qed

lemma skip_forward_step:
  "c < int (length rows) \<and> \<not> row_selectable (at rows c) \<Longrightarrow>
     skip_forward rows c = skip_forward rows (c + 1)"
  "\<not> (c < int (length rows) \<and> \<not> row_selectable (at rows c)) \<Longrightarrow> skip_forward rows c = c"
  using skip_forward.simps [of rows c] by presburger+

lemma skip_backward_step:
  "c \<ge> 0 \<and> c < int (length rows) \<and> \<not> row_selectable (at rows c) \<Longrightarrow>
     skip_backward rows c = skip_backward rows (c - 1)"
  "\<not> (c \<ge> 0 \<and> c < int (length rows) \<and> \<not> row_selectable (at rows c)) \<Longrightarrow>
     skip_backward rows c = c"
  using skip_backward.simps [of rows c] by presburger+

lemma skip_forward_stops:
  "skip_forward rows c < int (length rows) \<Longrightarrow> row_selectable (at rows (skip_forward rows c))"
proof (induction rows c rule: skip_forward.induct)
  case (1 rows c)
  show ?case
  proof (cases "c < int (length rows) \<and> \<not> row_selectable (at rows c)")
    case True
    have e: "skip_forward rows c = skip_forward rows (c + 1)"
      using True by (rule skip_forward_step(1))
    show ?thesis
      using "1.IH" [OF True] "1.prems" unfolding e by blast
  next
    case False
    have e: "skip_forward rows c = c"
      using False by (rule skip_forward_step(2))
    show ?thesis
      using False "1.prems" unfolding e by blast
  qed
qed

lemma skip_backward_stops:
  "0 \<le> skip_backward rows c \<Longrightarrow> skip_backward rows c < int (length rows) \<Longrightarrow>
   row_selectable (at rows (skip_backward rows c))"
proof (induction rows c rule: skip_backward.induct)
  case (1 rows c)
  show ?case
  proof (cases "c \<ge> 0 \<and> c < int (length rows) \<and> \<not> row_selectable (at rows c)")
    case True
    have e: "skip_backward rows c = skip_backward rows (c - 1)"
      using True by (rule skip_backward_step(1))
    show ?thesis
      using "1.IH" [OF True] "1.prems" unfolding e by blast
  next
    case False
    have e: "skip_backward rows c = c"
      using False by (rule skip_backward_step(2))
    show ?thesis
      using False "1.prems" unfolding e by blast
  qed
qed

lemma skip_forward_finds:
  assumes "c \<le> i" and "row_selectable (at rows i)"
  shows "skip_forward rows c \<le> i"
  using assms
proof (induction rows c rule: skip_forward.induct)
  case (1 rows c)
  show ?case
  proof (cases "c < int (length rows) \<and> \<not> row_selectable (at rows c)")
    case True
    have e: "skip_forward rows c = skip_forward rows (c + 1)"
      using True by (rule skip_forward_step(1))
    have "c \<noteq> i" using "1.prems"(2) True by blast
    then have "c + 1 \<le> i" using "1.prems"(1) by linarith
    then show ?thesis
      using "1.IH" [OF True _ "1.prems"(2)] unfolding e by blast
  next
    case False
    have e: "skip_forward rows c = c"
      using False by (rule skip_forward_step(2))
    show ?thesis using "1.prems"(1) unfolding e .
  qed
qed

lemma row_selectable_range: "row_selectable (at rows i) \<Longrightarrow> 0 \<le> i \<and> i < int (length rows)"
  by (auto simp: row_selectable_def at_def split: option.splits if_splits)

lemma skip_forward_from_zero:
  assumes "\<exists>row \<in> set rows. selectable row"
  shows "row_selectable (at rows (skip_forward rows 0))"
proof -
  obtain n where n: "n < length rows" "selectable (rows ! n)"
    using assms by (auto simp: in_set_conv_nth)
  then have s: "row_selectable (at rows (int n))"
    by (simp add: row_selectable_def at_def)
  have "skip_forward rows 0 \<le> int n"
    by (rule skip_forward_finds [OF _ s]) simp
  then have "skip_forward rows 0 < int (length rows)"
    using n(1) by simp
  then show ?thesis by (rule skip_forward_stops)
qed

lemma caret_selectable_iff:
  "caret_selectable cfg s \<longleftrightarrow>
     \<not> isl (render cfg s) \<and> caret_store cfg (categoryFilePickerStates s)"
proof (cases "render cfg s")
  case (Inl e)
  then show ?thesis by (simp add: caret_selectable_def)
next
  case (Inr v)
  show ?thesis
  proof (cases "activeCategory v")
    case None
    then show ?thesis
      using Inr render_Inr(2) [OF Inr] by (simp add: caret_selectable_def caret_store_def)
  next
    case (Some a)
    have "activeGroupedFiles v = active_rows_of cfg (categoryFilePickerStates s) a"
      using render_Inr(3,5) [OF Inr] Some by (simp add: active_rows_of_def)
    then show ?thesis
      using Inr Some render_Inr(2) [OF Inr]
      by (simp add: caret_selectable_def caret_store_def active_caret_def)
  qed
qed

lemma render_active_rows:
  assumes "render cfg s = Inr v" and "activeCategory v = Some a"
  shows "activeGroupedFiles v = active_rows_of cfg (categoryFilePickerStates s) a"
  using render_Inr(3,5) [OF assms(1)] assms(2) by (simp add: active_rows_of_def)

lemma find_snoc:
  "find P (xs @ [y]) = (case find P xs of Some x \<Rightarrow> Some x | None \<Rightarrow> if P y then Some y else None)"
  by (induction xs) auto

lemma fold_grouped_find:
  "fold (\<lambda>result grouped.
        if result_id result \<in> cw then grouped(result_id result \<mapsto> F result) else grouped)
     rs m a =
   (case find (\<lambda>r. result_id r \<in> cw \<and> result_id r = a) (rev rs) of
      Some r \<Rightarrow> Some (F r)
    | None \<Rightarrow> m a)"
proof (induction rs arbitrary: m)
  case Nil
  show ?case by simp
next
  case (Cons r rs)
  let ?f = "\<lambda>result grouped.
        if result_id result \<in> cw then grouped(result_id result \<mapsto> F result) else grouped"
  let ?P = "\<lambda>r. result_id r \<in> cw \<and> result_id r = a"
  have step: "fold ?f (r # rs) m a = fold ?f rs (?f r m) a"
    by simp
  have snoc: "find ?P (rev (r # rs)) =
      (case find ?P (rev rs) of Some x \<Rightarrow> Some x | None \<Rightarrow> if ?P r then Some r else None)"
    by (simp only: rev.simps find_snoc)
  show ?case
  proof (cases "find ?P (rev rs)")
    case None
    have "fold ?f rs (?f r m) a = ?f r m a"
      using Cons.IH [of "?f r m"] None by simp
    then show ?thesis
      unfolding step snoc None by simp
  next
    case (Some x)
    have "fold ?f rs (?f r m) a = Some (F x)"
      using Cons.IH [of "?f r m"] Some by simp
    then show ?thesis
      unfolding step snoc Some by simp
  qed
qed

lemma allGrouped_find:
  "allGroupedFilesByCategory cfg st a =
     map_option
       (\<lambda>r. groupFilesByDirectory (items r) (dirExpandLimits (getPickerState st a)) 5)
       (find (\<lambda>r. result_id r \<in> categoriesWithFileSelection cfg \<and> result_id r = a)
          (rev (results cfg)))"
proof (cases "find (\<lambda>r. result_id r \<in> categoriesWithFileSelection cfg \<and> result_id r = a)
          (rev (results cfg))")
  case None
  then show ?thesis
    unfolding allGroupedFilesByCategory_def fold_grouped_find by simp
next
  case (Some r)
  then have "result_id r = a"
    by (auto simp: find_Some_iff)
  then show ?thesis
    unfolding allGroupedFilesByCategory_def fold_grouped_find Some by simp
qed

lemma allGrouped_same_limits:
  assumes "\<And>c. dirExpandLimits (getPickerState st' c) = dirExpandLimits (getPickerState st c)"
  shows "allGroupedFilesByCategory cfg st' = allGroupedFilesByCategory cfg st"
  by (rule ext) (simp add: allGrouped_find assms)

lemma getActive_store_put_same:
  "active e = active (getPickerState st k) \<Longrightarrow>
   getActiveCategory (store_put st k e) = getActiveCategory st"
proof (induction st k e rule: store_put.induct)
  case (1 key v)
  then show ?case
    by (simp add: getActiveCategory_def getPickerState_def DEFAULT_PICKER_STATE_def)
next
  case (2 k e rest key v)
  show ?case
  proof (cases "k = key")
    case True
    then show ?thesis
      using "2.prems" by (simp add: getActiveCategory_def getPickerState_def)
  next
    case False
    then have "getActiveCategory (store_put rest key v) = getActiveCategory rest"
      using "2.IH" "2.prems" by (simp add: getPickerState_def)
    then show ?thesis
      using False by (simp add: getActiveCategory_def)
  qed
qed

lemma getActive_update:
  "upd_active u = None \<Longrightarrow> getActiveCategory (updatePickerState st k u) = getActiveCategory st"
  by (simp add: updatePickerState_def Let_def getActive_store_put_same)

lemma find_deactivate:
  "find (\<lambda>(key, state). active state) (map (\<lambda>(key, state). (key, state\<lparr>active := False\<rparr>)) st) = None"
  by (induction st) auto

lemma getActive_deactivate:
  "getActiveCategory (map (\<lambda>(key, state). (key, state\<lparr>active := False\<rparr>)) st) = None"
  by (simp add: getActiveCategory_def find_deactivate)

lemma getActive_enter:
  "active e \<Longrightarrow>
   getActiveCategory (store_put (map (\<lambda>(key, state). (key, state\<lparr>active := False\<rparr>)) st) k e) = Some k"
  by (induction st) (auto simp: getActiveCategory_def)

lemma fileCaret_update:
  "fileCaret (getPickerState (updatePickerState st k u) c) =
     (if c = k
      then (case upd_fileCaret u of Some n \<Rightarrow> n | None \<Rightarrow> fileCaret (getPickerState st k))
      else fileCaret (getPickerState st c))"
  by (simp add: updatePickerState_def Let_def getPickerState_store_put)

lemma caret_store_same:
  assumes "getActiveCategory st' = getActiveCategory st"
    and "\<And>c. dirExpandLimits (getPickerState st' c) = dirExpandLimits (getPickerState st c)"
    and "\<And>c. fileCaret (getPickerState st' c) = fileCaret (getPickerState st c)"
  shows "caret_store cfg st' = caret_store cfg st"
  using assms(1,3) allGrouped_same_limits [of st' st cfg, OF assms(2)]
  by (simp add: caret_store_def active_rows_of_def split: option.splits)

lemma caret_store_visible:
  "caret_store cfg (updatePickerState st k (set_visible b)) = caret_store cfg st"
  by (rule caret_store_same)
    (simp_all add: getActive_update limits_update fileCaret_update set_visible_def no_updates_def)

lemma caret_store_empty: "caret_store cfg []"
  by (simp add: caret_store_def getActiveCategory_def)

lemma caret_ok_reachable: "reachable cfg s \<Longrightarrow> caret_ok cfg s"
  using caret_ok_run [of cfg initialState]
  by (auto simp: reachable_def caret_ok_def initialState_def)

lemma limits_entry_target:
  assumes "limits_ok st"
  shows "active_rows_of cfg st a = [] \<or> (\<exists>row \<in> set (active_rows_of cfg st a). selectable row)"
proof (cases "allGroupedFilesByCategory cfg st a")
  case None
  then show ?thesis by (simp add: active_rows_of_def)
next
  case (Some rows)
  then have ar: "active_rows_of cfg st a = rows"
    by (simp add: active_rows_of_def)
  obtain r :: ScanResult
    where rows: "rows = groupFilesByDirectory (items r) (dirExpandLimits (getPickerState st a)) 5"
    using allGrouped_Some [OF Some] by blast
  have pos: "\<And>k l. dirExpandLimits (getPickerState st a) k = Some l \<Longrightarrow>
      \<exists>n. l = NumberLimit n \<and> 0 < n"
    using assms by (fastforce simp: limits_ok_def DIR_VIS_CHILD_LIMIT_def)
  show ?thesis
  proof (cases "rows = []")
    case True
    then show ?thesis using ar by simp
  next
    case False
    have "\<exists>row \<in> set rows. selectable row"
      unfolding rows
      by (rule groupFilesByDirectory_has_selectable) (use False rows pos in auto)
    then show ?thesis using ar by simp
  qed
qed

lemma caret_store_enter:
  assumes "render cfg s = Inr v"
    and "active_rows_of cfg (categoryFilePickerStates s) (result_id (currentResult v)) = []
         \<or> (\<exists>row \<in> set (active_rows_of cfg (categoryFilePickerStates s)
                           (result_id (currentResult v))). selectable row)"
    and "caret_store cfg (categoryFilePickerStates s)"
  shows "caret_store cfg (categoryFilePickerStates (categories_right v s))"
proof -
  let ?st = "categoryFilePickerStates s"
  let ?cur = "result_id (currentResult v)"
  show ?thesis
  proof (cases "allGrouped v ?cur")
    case None
    then show ?thesis using assms(3) by (simp add: categories_right_def Let_def)
  next
    case (Some rows)
    show ?thesis
    proof (cases "canShowFiles v \<and> rows \<noteq> []")
      case False
      then show ?thesis using assms(3) Some by (auto simp: categories_right_def Let_def)
    next
      case True
      let ?base = "getPickerState ?st ?cur"
      let ?ic = "if fileCaret ?base \<ge> int (length rows) \<or> \<not> row_selectable (at rows (fileCaret ?base))
                 then skip_forward rows 0 else fileCaret ?base"
      let ?fc = "if ?ic < int (length rows) then ?ic else 0"
      let ?st' = "store_put (map (\<lambda>(k, state). (k, state\<lparr>active := False\<rparr>)) ?st) ?cur
                    (?base\<lparr>active := True, visible := True, fileCaret := ?fc\<rparr>)"
      have st': "categoryFilePickerStates (categories_right v s) = ?st'"
        using True Some by (simp add: categories_right_def Let_def)
      have g: "allGroupedFilesByCategory cfg ?st ?cur = Some rows"
        using Some render_Inr(3) [OF assms(1)] by simp
      have "active_rows_of cfg ?st ?cur = rows"
        using g by (simp add: active_rows_of_def)
      then have "\<exists>row \<in> set rows. selectable row"
        using assms(2) True by simp
      then have s0: "row_selectable (at rows (skip_forward rows 0))"
        by (rule skip_forward_from_zero)
      have ic: "row_selectable (at rows ?ic)"
        using s0 by simp
      then have "?ic < int (length rows)"
        using row_selectable_range by blast
      then have fc: "row_selectable (at rows ?fc)"
        using ic by simp
      have act: "getActiveCategory ?st' = Some ?cur"
        by (rule getActive_enter) simp
      have lim: "\<And>c. dirExpandLimits (getPickerState ?st' c) = dirExpandLimits (getPickerState ?st c)"
        by (simp add: getPickerState_store_put limits_deactivate)
      have "allGroupedFilesByCategory cfg ?st' = allGroupedFilesByCategory cfg ?st"
        using lim by (rule allGrouped_same_limits)
      then have ar: "active_rows_of cfg ?st' ?cur = rows"
        using g by (simp add: active_rows_of_def)
      have cr: "fileCaret (getPickerState ?st' ?cur) = ?fc"
        by (simp add: getPickerState_store_put)
      show ?thesis
        using fc by (simp only: st' caret_store_def act ar cr option.case)
    qed
  qed
qed

lemma caret_store_handle_categories:
  assumes "render cfg s = Inr v"
    and "key = KeyRight \<Longrightarrow>
         active_rows_of cfg (categoryFilePickerStates s) (result_id (currentResult v)) = []
         \<or> (\<exists>row \<in> set (active_rows_of cfg (categoryFilePickerStates s)
                           (result_id (currentResult v))). selectable row)"
    and "caret_store cfg (categoryFilePickerStates s)"
  shows "caret_store cfg (categoryFilePickerStates (handle_categories cfg v s key))"
proof -
  let ?st = "categoryFilePickerStates s"
  have sp: "caret_store cfg (categoryFilePickerStates (categories_space cfg v s))"
    using assms(3) by (simp add: categories_space_def Let_def caret_store_visible)
  have a: "caret_store cfg (categoryFilePickerStates (categories_a cfg s))"
    using assms(3) caret_store_empty
      fold_last_wins [of "caret_store cfg" ?st
        "\<lambda>r. updatePickerState ?st (result_id r) (set_visible True)"
        "\<lambda>r. result_id r \<in> categoriesWithFileSelection cfg" "results cfg"]
    by (simp add: categories_a_def Let_def caret_store_visible)
  have "case fold (invert_category cfg ?st) (results cfg)
          (selectedCategories s, selectedFilesByCategory s, ?st) of
          (x, y, z) \<Rightarrow> caret_store cfg z"
    by (rule fold_invert_category)
      (use assms(3) in \<open>auto simp: invert_category_def Let_def caret_store_visible\<close>)
  then have i: "caret_store cfg (categoryFilePickerStates (categories_i cfg s))"
    by (auto simp: categories_i_def split: prod.splits)
  have r: "caret_store cfg (categoryFilePickerStates (categories_right v s))" if "key = KeyRight"
    using assms(1) assms(2) [OF that] assms(3) by (rule caret_store_enter)
  show ?thesis
    using assms(3) sp a i r
    by (simp add: handle_categories_def categories_up_def categories_down_def)
qed

lemma caret_store_move:
  assumes "getActiveCategory st = Some a" and "row_selectable (at (active_rows_of cfg st a) n)"
  shows "caret_store cfg (updatePickerState st a (set_fileCaret n))"
proof -
  let ?st' = "updatePickerState st a (set_fileCaret n)"
  have act: "getActiveCategory ?st' = Some a"
    using assms(1) by (simp add: getActive_update set_fileCaret_def no_updates_def)
  have "\<And>c. dirExpandLimits (getPickerState ?st' c) = dirExpandLimits (getPickerState st c)"
    by (simp add: limits_update set_fileCaret_def no_updates_def)
  then have "allGroupedFilesByCategory cfg ?st' = allGroupedFilesByCategory cfg st"
    by (rule allGrouped_same_limits)
  then have ar: "active_rows_of cfg ?st' a = active_rows_of cfg st a"
    by (simp add: active_rows_of_def)
  have cr: "fileCaret (getPickerState ?st' a) = n"
    by (simp add: fileCaret_update set_fileCaret_def no_updates_def)
  show ?thesis
    using assms(2) by (simp add: caret_store_def act ar cr)
qed

lemma caret_store_relimit:
  assumes "getActiveCategory st = Some a"
    and "at (active_rows_of cfg st a) (fileCaret (getPickerState st a)) = Some row"
    and "selectable row"
    and "\<And>fs. active_rows_of cfg st a
                 = groupFilesByDirectory fs (dirExpandLimits (getPickerState st a)) 5 \<Longrightarrow>
           at (groupFilesByDirectory fs L' 5) (fileCaret (getPickerState st a)) = Some row"
  shows "caret_store cfg (updatePickerState st a (set_dirExpandLimits L'))"
proof -
  let ?L = "dirExpandLimits (getPickerState st a)"
  let ?st' = "updatePickerState st a (set_dirExpandLimits L')"
  let ?c = "fileCaret (getPickerState st a)"
  have act: "getActiveCategory ?st' = Some a"
    using assms(1) by (simp add: getActive_update set_dirExpandLimits_def no_updates_def)
  have cr: "fileCaret (getPickerState ?st' a) = ?c"
    by (simp add: fileCaret_update set_dirExpandLimits_def no_updates_def)
  have lim: "dirExpandLimits (getPickerState ?st' a) = L'"
    by (simp add: limits_update set_dirExpandLimits_def no_updates_def)
  have "active_rows_of cfg st a \<noteq> []"
    using assms(2) by (auto simp: at_def split: if_splits)
  then obtain r where f: "find (\<lambda>r. result_id r \<in> categoriesWithFileSelection cfg \<and> result_id r = a)
          (rev (results cfg)) = Some r"
    by (cases "find (\<lambda>r. result_id r \<in> categoriesWithFileSelection cfg \<and> result_id r = a)
          (rev (results cfg))") (auto simp: active_rows_of_def allGrouped_find)
  have rows: "active_rows_of cfg st a = groupFilesByDirectory (items r) ?L 5"
    by (simp add: active_rows_of_def allGrouped_find f)
  have rows': "active_rows_of cfg ?st' a = groupFilesByDirectory (items r) L' 5"
    unfolding active_rows_of_def allGrouped_find f lim by simp
  have "at (groupFilesByDirectory (items r) L' 5) ?c = Some row"
    using rows by (rule assms(4))
  then show ?thesis
    using assms(3) by (simp add: caret_store_def act cr rows' row_selectable_def)
qed

lemma caret_store_expand:
  assumes "getActiveCategory (categoryFilePickerStates s) = Some a"
    and "at (active_rows_of cfg (categoryFilePickerStates s) a)
           (fileCaret (getPickerState (categoryFilePickerStates s) a)) = Some row"
    and "selectable row" and "directoryKey row = Some k"
    and "\<not> (dirExpandLimits (getPickerState (categoryFilePickerStates s) a) k = None
           \<and> k \<in> set object_prototype_keys)"
  shows "caret_store cfg (categoryFilePickerStates (expand_dir a s k))"
proof -
  let ?st = "categoryFilePickerStates s"
  let ?L = "dirExpandLimits (getPickerState ?st a)"
  have st': "categoryFilePickerStates (expand_dir a s k) =
      updatePickerState ?st a (set_dirExpandLimits (?L(k \<mapsto> expanded_limit ?L k)))"
    by (simp add: expand_dir_def Let_def)
  show ?thesis
    unfolding st'
  proof (rule caret_store_relimit [OF assms(1,2,3)])
    fix fs
    assume "active_rows_of cfg ?st a = groupFilesByDirectory fs ?L 5"
    then have "at (groupFilesByDirectory fs ?L 5) (fileCaret (getPickerState ?st a)) = Some row"
      using assms(2) by simp
    then show "at (groupFilesByDirectory fs (?L(k \<mapsto> expanded_limit ?L k)) 5)
        (fileCaret (getPickerState ?st a)) = Some row"
      using assms(3,4,5) by (rule groupFilesByDirectory_expand)
  qed
qed

lemma caret_store_collapse:
  assumes "getActiveCategory st = Some a"
    and "at (active_rows_of cfg st a) (fileCaret (getPickerState st a)) = Some row"
    and "selectable row" and "directoryKey row = Some k"
    and "within_default_limit (active_rows_of cfg st a) (fileCaret (getPickerState st a))"
  shows "caret_store cfg (updatePickerState st a (set_dirExpandLimits
           ((dirExpandLimits (getPickerState st a))(k \<mapsto> NumberLimit DIR_VIS_CHILD_LIMIT))))"
proof (rule caret_store_relimit [OF assms(1,2,3)])
  let ?L = "dirExpandLimits (getPickerState st a)"
  fix fs
  assume rows: "active_rows_of cfg st a = groupFilesByDirectory fs ?L 5"
  have a: "at (groupFilesByDirectory fs ?L 5) (fileCaret (getPickerState st a)) = Some row"
    using assms(2) unfolding rows .
  have w: "within_default_limit (groupFilesByDirectory fs ?L 5) (fileCaret (getPickerState st a))"
    using assms(5) unfolding rows .
  show "at (groupFilesByDirectory fs (?L(k \<mapsto> NumberLimit DIR_VIS_CHILD_LIMIT)) 5)
      (fileCaret (getPickerState st a)) = Some row"
    using a assms(3,4) w by (rule groupFilesByDirectory_collapse)
qed

text \<open>With the caret on a selectable row, that row is a file row known to the render.\<close>

lemma caret_row:
  assumes "render cfg s = Inr v" and "activeCategory v = Some a"
    and "caret_store cfg (categoryFilePickerStates s)"
  shows "getActiveCategory (categoryFilePickerStates s) = Some a"
    and "activeGroupedFiles v = active_rows_of cfg (categoryFilePickerStates s) a"
    and "\<exists>row. at (active_rows_of cfg (categoryFilePickerStates s) a) (active_caret s a) = Some row
           \<and> selectable row \<and> row_type row = FileRow"
proof -
  let ?st = "categoryFilePickerStates s"
  let ?rows = "active_rows_of cfg ?st a"
  show act: "getActiveCategory ?st = Some a"
    using render_Inr(2) [OF assms(1)] assms(2) by simp
  show "activeGroupedFiles v = ?rows"
    using render_active_rows [OF assms(1,2)] .
  have "row_selectable (at ?rows (active_caret s a))"
    using assms(3) act by (simp add: caret_store_def active_caret_def)
  then obtain row where row: "at ?rows (active_caret s a) = Some row" and sel: "selectable row"
    by (auto simp: row_selectable_def split: option.splits)
  have mem: "row \<in> set ?rows"
    using row by (rule at_in_set)
  then have "?rows \<noteq> []" by auto
  then have g: "allGroupedFilesByCategory cfg ?st a = Some ?rows"
    by (cases "allGroupedFilesByCategory cfg ?st a") (auto simp: active_rows_of_def)
  obtain r :: ScanResult and L where "?rows = groupFilesByDirectory (items r) L 5"
    using allGrouped_Some [OF g] by blast
  then have "row_type row = FileRow"
    using groupFilesByDirectory_selectable [of row "items r" L 5] mem sel by simp
  then show "\<exists>row. at ?rows (active_caret s a) = Some row \<and> selectable row \<and> row_type row = FileRow"
    using row sel by blast
qed

lemma files_right_on_file:
  assumes "render cfg s = Inr v" and "activeCategory v = Some a"
    and "caret_store cfg (categoryFilePickerStates s)"
  shows "files_right v a s = s"
  using caret_row [OF assms] by (auto simp: files_right_def)

lemma caret_store_handle_files:
  assumes "render cfg s = Inr v" and "activeCategory v = Some a"
    and "caret_store cfg (categoryFilePickerStates s)"
    and "key = KeyH \<Longrightarrow>
           within_default_limit (active_rows_of cfg (categoryFilePickerStates s) a)
             (active_caret s a)"
    and "\<And>row k. at (active_rows_of cfg (categoryFilePickerStates s) a) (active_caret s a)
             = Some row \<Longrightarrow>
           key = KeyM \<or> (key = KeyRight \<and> row_type row = ExpandHint) \<Longrightarrow>
           truthy_key (Some row) = Some k \<Longrightarrow>
           \<not> (dirExpandLimits (getPickerState (categoryFilePickerStates s) a) k = None
              \<and> k \<in> set object_prototype_keys)"
  shows "caret_store cfg (categoryFilePickerStates (handle_files cfg v a s key))"
proof -
  let ?st = "categoryFilePickerStates s"
  let ?rows = "active_rows_of cfg ?st a"
  note act = caret_row(1) [OF assms(1,2,3)]
  note rows = caret_row(2) [OF assms(1,2,3)]
  obtain row where row: "at ?rows (active_caret s a) = Some row" and sel: "selectable row"
    using caret_row(3) [OF assms(1,2,3)] by blast
  have up: "caret_store cfg (categoryFilePickerStates (files_up v a s))"
    using assms(3) caret_store_move [OF act, of cfg "skip_backward ?rows (active_caret s a - 1)"]
      skip_backward_stops [of ?rows "active_caret s a - 1"]
    by (simp add: files_up_def Let_def rows)
  have down: "caret_store cfg (categoryFilePickerStates (files_down v a s))"
    using assms(3) caret_store_move [OF act, of cfg "skip_forward ?rows (active_caret s a + 1)"]
      skip_forward_stops [of ?rows "active_caret s a + 1"]
    by (simp add: files_down_def Let_def rows)
  have m: "caret_store cfg (categoryFilePickerStates (files_m v a s))" if "key = KeyM"
  proof (cases "truthy_key (Some row)")
    case None
    then show ?thesis using assms(3) row by (simp add: files_m_def rows)
  next
    case (Some k)
    then have k: "directoryKey row = Some k"
      by (auto simp: truthy_key_def split: option.splits if_splits)
    have ni: "\<not> (dirExpandLimits (getPickerState ?st a) k = None \<and> k \<in> set object_prototype_keys)"
      using assms(5) [OF row _ Some] that by simp
    show ?thesis
      using caret_store_expand [OF act row [unfolded active_caret_def] sel k ni] Some row
      by (simp add: files_m_def rows)
  qed
  have h: "caret_store cfg (categoryFilePickerStates (files_h v a s))" if "key = KeyH"
  proof (cases "truthy_key (Some row)")
    case None
    then show ?thesis using assms(3) row by (simp add: files_h_def rows)
  next
    case (Some k)
    then have k: "directoryKey row = Some k"
      by (auto simp: truthy_key_def split: option.splits if_splits)
    note w = assms(4) [OF that, unfolded active_caret_def]
    show ?thesis
      using caret_store_collapse [OF act row [unfolded active_caret_def] sel k w] Some row
      by (simp add: files_h_def rows Let_def)
  qed
  have r: "files_right v a s = s"
    using assms(1,2,3) by (rule files_right_on_file)
  have b: "caret_store cfg (categoryFilePickerStates (files_back s))"
    by (simp add: files_back_def setActiveCategory_def caret_store_def getActive_deactivate)
  have sel: "categoryFilePickerStates (files_space v a s) = ?st"
    "categoryFilePickerStates (files_a cfg a s) = ?st"
    "categoryFilePickerStates (files_d v a s) = ?st"
    "categoryFilePickerStates (files_i cfg a s) = ?st"
    by (auto simp: files_space_def files_a_def files_d_def files_i_def Let_def
        split: option.splits prod.splits)
  show ?thesis
    using assms(3) up down m h r b sel by (simp add: handle_files_def)
qed

lemma enter_caret:
  assumes "render cfg s = Inr v"
    and "active_rows_of cfg (categoryFilePickerStates s) a = []
         \<or> (\<exists>row \<in> set (active_rows_of cfg (categoryFilePickerStates s) a). selectable row)"
    and "activePane s = Categories" and "activePane (categories_right v s) = Files"
    and "a = result_id (currentResult v)"
  shows "getActiveCategory (categoryFilePickerStates (categories_right v s)) = Some a \<and>
         active_rows_of cfg (categoryFilePickerStates (categories_right v s)) a =
           active_rows_of cfg (categoryFilePickerStates s) a \<and>
         active_caret (categories_right v s) a =
           (if row_selectable (at (active_rows_of cfg (categoryFilePickerStates s) a) (active_caret s a))
            then active_caret s a
            else skip_forward (active_rows_of cfg (categoryFilePickerStates s) a) 0)"
proof -
  let ?st = "categoryFilePickerStates s"
  obtain rows where Some: "allGrouped v a = Some rows"
    using assms(3,4,5) by (cases "allGrouped v a") (auto simp: categories_right_def Let_def)
  have True: "canShowFiles v \<and> rows \<noteq> []"
    using assms(3,4,5) Some by (auto simp: categories_right_def Let_def split: if_splits)
  let ?base = "getPickerState ?st a"
  let ?ic = "if fileCaret ?base \<ge> int (length rows) \<or> \<not> row_selectable (at rows (fileCaret ?base))
             then skip_forward rows 0 else fileCaret ?base"
  let ?fc = "if ?ic < int (length rows) then ?ic else 0"
  let ?st' = "store_put (map (\<lambda>(k, state). (k, state\<lparr>active := False\<rparr>)) ?st) a
                (?base\<lparr>active := True, visible := True, fileCaret := ?fc\<rparr>)"
  have st': "categoryFilePickerStates (categories_right v s) = ?st'"
    using True Some assms(5) by (simp add: categories_right_def Let_def)
  have g: "allGroupedFilesByCategory cfg ?st a = Some rows"
    using Some render_Inr(3) [OF assms(1)] by simp
  then have ar0: "active_rows_of cfg ?st a = rows"
    by (simp add: active_rows_of_def)
  have "\<exists>row \<in> set rows. selectable row"
    using assms(2) True unfolding ar0 by simp
  then have s0: "row_selectable (at rows (skip_forward rows 0))"
    by (rule skip_forward_from_zero)
  have ic: "row_selectable (at rows ?ic)"
    using s0 by simp
  then have "?ic < int (length rows)"
    using row_selectable_range by blast
  then have fc: "?fc = ?ic"
    by simp
  have range: "row_selectable (at rows (fileCaret ?base)) \<Longrightarrow> fileCaret ?base < int (length rows)"
    using row_selectable_range by blast
  have ic': "?ic = (if row_selectable (at rows (fileCaret ?base)) then fileCaret ?base
                    else skip_forward rows 0)"
    using range by auto
  have act: "getActiveCategory ?st' = Some a"
    by (rule getActive_enter) simp
  have lim: "\<And>c. dirExpandLimits (getPickerState ?st' c) = dirExpandLimits (getPickerState ?st c)"
    by (simp add: getPickerState_store_put limits_deactivate)
  have "allGroupedFilesByCategory cfg ?st' = allGroupedFilesByCategory cfg ?st"
    using lim by (rule allGrouped_same_limits)
  then have ar: "active_rows_of cfg ?st' a = rows"
    using g by (simp add: active_rows_of_def)
  have cr: "fileCaret (getPickerState ?st' a) = ?fc"
    by (simp add: getPickerState_store_put)
  have "active_caret (categories_right v s) a = ?fc"
    by (simp only: active_caret_def st' cr)
  then have "active_caret (categories_right v s) a = ?ic"
    using fc by (rule trans)
  then have c: "active_caret (categories_right v s) a =
      (if row_selectable (at rows (fileCaret ?base)) then fileCaret ?base
       else skip_forward rows 0)"
    using ic' by (rule trans)
  have a1: "getActiveCategory (categoryFilePickerStates (categories_right v s)) = Some a"
    using act by (simp only: st')
  have a2: "active_rows_of cfg (categoryFilePickerStates (categories_right v s)) a =
           active_rows_of cfg (categoryFilePickerStates s) a"
    using ar ar0 by (simp only: st')
  show ?thesis
    using a1 a2 c unfolding ar0 active_caret_def by blast
qed

section \<open>An expansion that reads an inherited member\<close>

text \<open>
  For a directory named \<^verbatim>\<open>constructor\<close> and not yet expanded, \<^verbatim>\<open>m\<close> reads
  \<^verbatim>\<open>Object.prototype.constructor\<close> for the current limit and records a string. The
  directory then shows its header only, and the caret, still at index 1, is on no row. Back in
  the category pane, the right arrow finds no selectable row and puts the caret on row 0, the
  header.
\<close>

lemma expand_reads_inherited_member:
  "reachable prototype_named (state_after prototype_named [KeyRight, KeyM, KeyLeft, KeyRight]) \<and>
   caret_selectable prototype_named (state_after prototype_named [KeyRight]) \<and>
   expands_inherited prototype_named (state_after prototype_named [KeyRight]) KeyM \<and>
   dirExpandLimits
     (getPickerState (categoryFilePickerStates (state_after prototype_named [KeyRight, KeyM]))
        LargeFiles) ''constructor'' = Some StringLimit \<and>
   map row_type
     (active_rows_of prototype_named
        (categoryFilePickerStates (state_after prototype_named [KeyRight, KeyM])) LargeFiles)
     = [DirectoryHeader] \<and>
   active_caret (state_after prototype_named [KeyRight, KeyM]) LargeFiles = 1 \<and>
   \<not> caret_selectable prototype_named (state_after prototype_named [KeyRight, KeyM]) \<and>
   caret_selectable prototype_named (state_after prototype_named [KeyRight, KeyM, KeyLeft]) \<and>
   \<not> entry_target prototype_named (state_after prototype_named [KeyRight, KeyM, KeyLeft]) \<and>
   active_caret (state_after prototype_named [KeyRight, KeyM, KeyLeft, KeyRight]) LargeFiles = 0 \<and>
   \<not> caret_selectable prototype_named
       (state_after prototype_named [KeyRight, KeyM, KeyLeft, KeyRight])"
proof -
  have "is_next (run prototype_named initialState [KeyRight, KeyM, KeyLeft, KeyRight])"
    by code_simp
  then have re: "reachable prototype_named
      (state_after prototype_named [KeyRight, KeyM, KeyLeft, KeyRight])"
    by (rule reachable_state_after)
  have v: "caret_selectable prototype_named (state_after prototype_named [KeyRight])"
    "expands_inherited prototype_named (state_after prototype_named [KeyRight]) KeyM"
    "dirExpandLimits
       (getPickerState (categoryFilePickerStates (state_after prototype_named [KeyRight, KeyM]))
          LargeFiles) ''constructor'' = Some StringLimit"
    "map row_type
       (active_rows_of prototype_named
          (categoryFilePickerStates (state_after prototype_named [KeyRight, KeyM])) LargeFiles)
       = [DirectoryHeader]"
    "active_caret (state_after prototype_named [KeyRight, KeyM]) LargeFiles = 1"
    "\<not> caret_selectable prototype_named (state_after prototype_named [KeyRight, KeyM])"
    "caret_selectable prototype_named (state_after prototype_named [KeyRight, KeyM, KeyLeft])"
    "\<not> entry_target prototype_named (state_after prototype_named [KeyRight, KeyM, KeyLeft])"
    "active_caret (state_after prototype_named [KeyRight, KeyM, KeyLeft, KeyRight]) LargeFiles = 0"
    "\<not> caret_selectable prototype_named
       (state_after prototype_named [KeyRight, KeyM, KeyLeft, KeyRight])"
    by code_simp+
  show ?thesis
    using re v by simp
qed

section \<open>The file caret stays on a selectable row\<close>

text \<open>
  Claim C8, as amended. The caret of the active category is on a selectable row of the rows
  shown for it at the start of a session, and after every key pressed in a reachable state in
  which it is, with these exceptions: \<^verbatim>\<open>h\<close> pressed with the caret beyond the fifth file
  of its directory; an expansion of a directory without a recorded limit whose key names a
  member of \<^verbatim>\<open>Object.prototype\<close>; and the right arrow in the category pane on a category
  whose rows have no selectable row. The last happens only after the second: the recorded
  limits are numbers not below the default at the start, they stay so under every key that is
  not such an expansion, and with such limits the rows of a category, if it has any, have a
  selectable row. The caret is re-derived on entry to the files pane only: the rows stay as
  they are, a remembered caret on a selectable row is kept and any other is replaced by the
  first selectable row, when there is one. No key is an error in any reachable state of a
  session with results, whatever the caret, and the window of rows the renderer draws holds
  indices of the row list only.
\<close>

theorem caret_stays_selectable:
  "(results cfg \<noteq> [] \<longrightarrow> caret_selectable cfg initialState) \<and>
   (\<forall>s key s'. reachable cfg s \<and> caret_selectable cfg s \<and>
        (key = KeyH \<longrightarrow> caret_within_default cfg s) \<and>
        \<not> expands_inherited cfg s key \<and>
        (key = KeyRight \<longrightarrow> entry_target cfg s) \<and>
        step cfg s key = Inr (Next s') \<longrightarrow>
        caret_selectable cfg s') \<and>
   limits_ok (categoryFilePickerStates initialState) \<and>
   (\<forall>s key s'. reachable cfg s \<and> limits_ok (categoryFilePickerStates s) \<and>
        \<not> expands_inherited cfg s key \<and>
        step cfg s key = Inr (Next s') \<longrightarrow>
        limits_ok (categoryFilePickerStates s')) \<and>
   (\<forall>s. limits_ok (categoryFilePickerStates s) \<longrightarrow> entry_target cfg s) \<and>
   (\<forall>s s'. reachable cfg s \<and> entry_target cfg s \<and> activePane s = Categories \<and>
        step cfg s KeyRight = Inr (Next s') \<and> activePane s' = Files \<longrightarrow>
        (\<exists>a. getActiveCategory (categoryFilePickerStates s') = Some a \<and>
           active_rows_of cfg (categoryFilePickerStates s') a =
             active_rows_of cfg (categoryFilePickerStates s) a \<and>
           active_caret s' a =
             (if row_selectable
                   (at (active_rows_of cfg (categoryFilePickerStates s) a) (active_caret s a))
              then active_caret s a
              else skip_forward (active_rows_of cfg (categoryFilePickerStates s) a) 0))) \<and>
   (\<forall>rows i. row_selectable (at rows i) \<longrightarrow>
        row_selectable (at rows (skip_forward rows 0)) \<and> skip_forward rows 0 \<le> i) \<and>
   (\<forall>s key. reachable cfg s \<and> results cfg \<noteq> [] \<longrightarrow> \<not> isl (step cfg s key)) \<and>
   (\<forall>isActive caret len j.
        fileStart isActive caret len \<le> j \<and> j < fileEnd len (fileStart isActive caret len) \<longrightarrow>
        0 \<le> j \<and> j < len)"
proof (intro conjI allI impI)
  assume "results cfg \<noteq> []"
  then have "\<not> isl (render cfg initialState)"
    by (simp add: render_def at_def Let_def initialState_def)
  then show "caret_selectable cfg initialState"
    by (simp add: caret_selectable_iff caret_store_def getActiveCategory_def initialState_def)
next
  fix s key s'
  assume h: "reachable cfg s \<and> caret_selectable cfg s \<and>
        (key = KeyH \<longrightarrow> caret_within_default cfg s) \<and>
        \<not> expands_inherited cfg s key \<and>
        (key = KeyRight \<longrightarrow> entry_target cfg s) \<and>
        step cfg s key = Inr (Next s')"
  then have st: "step cfg s key = Inr (Next s')" and re: "reachable cfg s"
    and wd: "key = KeyH \<Longrightarrow> caret_within_default cfg s"
    and ni: "\<not> expands_inherited cfg s key"
    and et: "key = KeyRight \<Longrightarrow> entry_target cfg s"
    by simp_all
  let ?st = "categoryFilePickerStates s"
  obtain v where v: "render cfg s = Inr v"
    using step_Next [OF st] by blast
  have ne: "results cfg \<noteq> []"
    using render_Inr(1) [OF v] by (auto simp: at_def split: if_splits)
  have "caret_ok cfg s'"
    using caret_ok_step [OF caret_ok_reachable [OF re] v st] .
  then have r': "\<not> isl (render cfg s')"
    using ne by (simp add: render_def at_def Let_def caret_ok_def)
  have c: "caret_store cfg ?st"
    using h by (simp add: caret_selectable_iff)
  have "caret_store cfg (categoryFilePickerStates s')"
  proof (cases "activePane s")
    case Categories
    have "active_rows_of cfg ?st (result_id (currentResult v)) = []
         \<or> (\<exists>row \<in> set (active_rows_of cfg ?st (result_id (currentResult v))). selectable row)"
      if "key = KeyRight"
      using et [OF that] Categories render_Inr(1) [OF v]
      by (simp add: entry_target_def list_ex_iff)
    then have "caret_store cfg (categoryFilePickerStates (handle_categories cfg v s key))"
      using v c by (intro caret_store_handle_categories)
    then show ?thesis
      using step_render(2) [OF v st] Categories by simp
  next
    case Files
    show ?thesis
    proof (cases "activeCategory v")
      case None
      then show ?thesis
        using step_render(2) [OF v st] Files c by simp
    next
      case (Some a)
      note act = caret_row(1) [OF v Some c]
      have kh: "key = KeyH \<Longrightarrow> within_default_limit (active_rows_of cfg ?st a) (active_caret s a)"
        using wd Files act by (simp add: caret_within_default_def)
      have km: "\<And>row k. at (active_rows_of cfg ?st a) (active_caret s a) = Some row \<Longrightarrow>
          key = KeyM \<or> (key = KeyRight \<and> row_type row = ExpandHint) \<Longrightarrow>
          truthy_key (Some row) = Some k \<Longrightarrow>
          \<not> (dirExpandLimits (getPickerState ?st a) k = None \<and> k \<in> set object_prototype_keys)"
        using ni Files act by (auto simp: expands_inherited_def)
      have s': "s' = handle_files cfg v a s key"
        using step_render(2) [OF v st] Files Some by simp
      show ?thesis
        unfolding s' using v Some c kh km by (rule caret_store_handle_files)
    qed
  qed
  then show "caret_selectable cfg s'"
    using r' by (simp add: caret_selectable_iff)
next
  show "limits_ok (categoryFilePickerStates initialState)"
    using limits_ok_empty by (simp add: initialState_def)
next
  fix s key s'
  assume h: "reachable cfg s \<and> limits_ok (categoryFilePickerStates s) \<and>
        \<not> expands_inherited cfg s key \<and>
        step cfg s key = Inr (Next s')"
  then have st: "step cfg s key = Inr (Next s')"
    and l: "limits_ok (categoryFilePickerStates s)"
    and ni: "\<not> expands_inherited cfg s key"
    by simp_all
  let ?st = "categoryFilePickerStates s"
  obtain v where v: "render cfg s = Inr v"
    using step_Next [OF st] by blast
  show "limits_ok (categoryFilePickerStates s')"
  proof (cases "activePane s")
    case Categories
    then show ?thesis
      using step_render(2) [OF v st] limits_ok_handle_categories [OF l] by simp
  next
    case Files
    show ?thesis
    proof (cases "activeCategory v")
      case None
      then show ?thesis
        using step_render(2) [OF v st] Files l by simp
    next
      case (Some a)
      have act: "getActiveCategory ?st = Some a"
        using render_Inr(2) [OF v] Some by simp
      note rows = render_active_rows [OF v Some]
      have km: "\<And>row k. at (activeGroupedFiles v) (active_caret s a) = Some row \<Longrightarrow>
          key = KeyM \<or> (key = KeyRight \<and> row_type row = ExpandHint) \<Longrightarrow>
          truthy_key (Some row) = Some k \<Longrightarrow>
          \<not> (dirExpandLimits (getPickerState ?st a) k = None \<and> k \<in> set object_prototype_keys)"
        unfolding rows using ni Files act by (auto simp: expands_inherited_def)
      have s': "s' = handle_files cfg v a s key"
        using step_render(2) [OF v st] Files Some by simp
      show ?thesis
        unfolding s' using l km by (rule limits_ok_handle_files)
    qed
  qed
next
  fix s :: PickerState
  assume l: "limits_ok (categoryFilePickerStates s)"
  show "entry_target cfg s"
    using limits_entry_target [OF l, of cfg]
    by (auto simp: entry_target_def list_ex_iff split: Pane.splits option.splits)
next
  fix s s'
  assume h: "reachable cfg s \<and> entry_target cfg s \<and> activePane s = Categories \<and>
        step cfg s KeyRight = Inr (Next s') \<and> activePane s' = Files"
  then have st: "step cfg s KeyRight = Inr (Next s')" and re: "reachable cfg s"
    and et: "entry_target cfg s"
    and p: "activePane s = Categories" and p': "activePane s' = Files"
    by simp_all
  let ?st = "categoryFilePickerStates s"
  obtain v where v: "render cfg s = Inr v"
    using step_Next [OF st] by blast
  have s': "s' = categories_right v s"
    using step_render(2) [OF v st] p by (simp add: handle_categories_def)
  have t: "active_rows_of cfg ?st (result_id (currentResult v)) = []
         \<or> (\<exists>row \<in> set (active_rows_of cfg ?st (result_id (currentResult v))). selectable row)"
    using et p render_Inr(1) [OF v] by (simp add: entry_target_def list_ex_iff)
  show "\<exists>a. getActiveCategory (categoryFilePickerStates s') = Some a \<and>
           active_rows_of cfg (categoryFilePickerStates s') a =
             active_rows_of cfg (categoryFilePickerStates s) a \<and>
           active_caret s' a =
             (if row_selectable
                   (at (active_rows_of cfg (categoryFilePickerStates s) a) (active_caret s a))
              then active_caret s a
              else skip_forward (active_rows_of cfg (categoryFilePickerStates s) a) 0)"
    using enter_caret [OF v t p p' [unfolded s'] refl] unfolding s'
    by blast
next
  fix rows :: "GroupedFileDisplay list" and i
  assume s: "row_selectable (at rows i)"
  then have "0 \<le> i" using row_selectable_range by blast
  then show le: "skip_forward rows 0 \<le> i"
    using skip_forward_finds s by blast
  have "i < int (length rows)" using s row_selectable_range by blast
  then have "skip_forward rows 0 < int (length rows)" using le by linarith
  then show "row_selectable (at rows (skip_forward rows 0))"
    by (rule skip_forward_stops)
next
  fix s key
  assume h: "reachable cfg s \<and> results cfg \<noteq> []"
  then have "caret_ok cfg s"
    using caret_ok_reachable by blast
  then have "\<not> isl (render cfg s)"
    using h by (simp add: render_def at_def Let_def caret_ok_def)
  then show "\<not> isl (step cfg s key)"
    by (cases "render cfg s") (simp_all add: step_def)
next
  fix isActive caret len j
  assume w: "fileStart isActive caret len \<le> j \<and> j < fileEnd len (fileStart isActive caret len)"
  then show "0 \<le> j"
    by (auto simp: fileStart_def split: if_splits)
  show "j < len"
    using w by (simp add: fileEnd_def)
qed

theorem caret_stays_selectable_witness:
  "results one_category \<noteq> [] \<and>
   caret_selectable one_category initialState \<and>
   limits_ok (categoryFilePickerStates initialState) \<and>
   entry_target one_category initialState \<and>
   activePane initialState = Categories \<and>
   reachable one_category (state_after one_category [KeyRight]) \<and>
   activePane (state_after one_category [KeyRight]) = Files \<and>
   caret_selectable one_category (state_after one_category [KeyRight]) \<and>
   limits_ok (categoryFilePickerStates (state_after one_category [KeyRight])) \<and>
   \<not> expands_inherited one_category (state_after one_category [KeyRight]) KeyM \<and>
   reachable one_category (state_after one_category [KeyRight, KeyM]) \<and>
   caret_selectable one_category (state_after one_category [KeyRight, KeyM]) \<and>
   limits_ok (categoryFilePickerStates (state_after one_category [KeyRight, KeyM])) \<and>
   activePane (state_after one_category [KeyRight, KeyM]) = Files \<and>
   active_caret (state_after one_category [KeyRight, KeyM]) LargeFiles = 1 \<and>
   caret_within_default one_category (state_after one_category [KeyRight, KeyM]) \<and>
   active_caret (state_after one_category [KeyRight, KeyM, KeyH]) LargeFiles = 1 \<and>
   caret_selectable one_category (state_after one_category [KeyRight, KeyM, KeyH]) \<and>
   limits_ok (categoryFilePickerStates (state_after one_category [KeyRight, KeyM, KeyH])) \<and>
   (\<exists>a. getActiveCategory (categoryFilePickerStates (state_after one_category [KeyRight]))
           = Some a \<and>
        active_rows_of one_category
            (categoryFilePickerStates (state_after one_category [KeyRight])) a =
          active_rows_of one_category (categoryFilePickerStates initialState) a \<and>
        active_caret (state_after one_category [KeyRight]) a =
          (if row_selectable
                (at (active_rows_of one_category (categoryFilePickerStates initialState) a)
                   (active_caret initialState a))
           then active_caret initialState a
           else skip_forward
                  (active_rows_of one_category (categoryFilePickerStates initialState) a) 0)) \<and>
   row_selectable (at (groupFilesByDirectory six_files Map.empty 5) 3) \<and>
   row_selectable (at (groupFilesByDirectory six_files Map.empty 5)
     (skip_forward (groupFilesByDirectory six_files Map.empty 5) 0)) \<and>
   skip_forward (groupFilesByDirectory six_files Map.empty 5) 0 \<le> 3 \<and>
   \<not> isl (step one_category (state_after one_category [KeyRight]) KeyDown) \<and>
   fileStart True 6 7 \<le> 1 \<and> 1 < fileEnd 7 (fileStart True 6 7)"
proof -
  let ?s1 = "state_after one_category [KeyRight]"
  let ?s2 = "state_after one_category [KeyRight, KeyM]"
  let ?s3 = "state_after one_category [KeyRight, KeyM, KeyH]"
  have ne: "results one_category \<noteq> []"
    by (simp add: one_category_def)
  have i: "caret_selectable one_category initialState"
    and l0: "limits_ok (categoryFilePickerStates initialState)"
    using caret_stays_selectable [of one_category] ne by blast+
  have caret: "\<And>s key s'. reachable one_category s \<Longrightarrow> caret_selectable one_category s \<Longrightarrow>
      (key = KeyH \<longrightarrow> caret_within_default one_category s) \<Longrightarrow>
      \<not> expands_inherited one_category s key \<Longrightarrow>
      (key = KeyRight \<longrightarrow> entry_target one_category s) \<Longrightarrow>
      step one_category s key = Inr (Next s') \<Longrightarrow>
      caret_selectable one_category s'"
    using caret_stays_selectable [of one_category] by blast
  have limits: "\<And>s key s'. reachable one_category s \<Longrightarrow>
      limits_ok (categoryFilePickerStates s) \<Longrightarrow>
      \<not> expands_inherited one_category s key \<Longrightarrow>
      step one_category s key = Inr (Next s') \<Longrightarrow>
      limits_ok (categoryFilePickerStates s')"
    using caret_stays_selectable [of one_category] by blast
  have target: "\<And>s. limits_ok (categoryFilePickerStates s) \<Longrightarrow> entry_target one_category s"
    using caret_stays_selectable [of one_category] by blast
  have et0: "entry_target one_category initialState"
    using l0 by (rule target)
  have "is_next (run one_category initialState [])"
    by code_simp
  then have "reachable one_category (state_after one_category [])"
    by (rule reachable_state_after)
  then have r0: "reachable one_category initialState"
    unfolding state_after_Nil .
  have "is_next (run one_category initialState ([] @ [KeyRight]))"
    by code_simp
  then have "step one_category (state_after one_category []) KeyRight =
      Inr (Next (state_after one_category ([] @ [KeyRight])))"
    by (rule step_state_after)
  then have st1: "step one_category initialState KeyRight = Inr (Next ?s1)"
    unfolding state_after_Nil by simp
  have n0: "\<not> expands_inherited one_category initialState KeyRight"
    by code_simp
  have c1: "caret_selectable one_category ?s1"
    by (rule caret [OF r0 i _ n0 _ st1]) (simp_all add: et0)
  have l1: "limits_ok (categoryFilePickerStates ?s1)"
    using r0 l0 n0 st1 by (rule limits)
  have "is_next (run one_category initialState [KeyRight])"
    by code_simp
  then have r1: "reachable one_category ?s1"
    by (rule reachable_state_after)
  have n1: "\<not> expands_inherited one_category ?s1 KeyM"
    by code_simp
  have "is_next (run one_category initialState ([KeyRight] @ [KeyM]))"
    by code_simp
  then have "step one_category ?s1 KeyM = Inr (Next (state_after one_category ([KeyRight] @ [KeyM])))"
    by (rule step_state_after)
  then have st2: "step one_category ?s1 KeyM = Inr (Next ?s2)"
    by simp
  have c2: "caret_selectable one_category ?s2"
    by (rule caret [OF r1 c1 _ n1 _ st2]) simp_all
  have l2: "limits_ok (categoryFilePickerStates ?s2)"
    using r1 l1 n1 st2 by (rule limits)
  have "is_next (run one_category initialState [KeyRight, KeyM])"
    by code_simp
  then have r2: "reachable one_category ?s2"
    by (rule reachable_state_after)
  have wd: "caret_within_default one_category ?s2"
    by code_simp
  have n2: "\<not> expands_inherited one_category ?s2 KeyH"
    by code_simp
  have "is_next (run one_category initialState ([KeyRight, KeyM] @ [KeyH]))"
    by code_simp
  then have "step one_category ?s2 KeyH =
      Inr (Next (state_after one_category ([KeyRight, KeyM] @ [KeyH])))"
    by (rule step_state_after)
  then have st3: "step one_category ?s2 KeyH = Inr (Next ?s3)"
    by simp
  have c3: "caret_selectable one_category ?s3"
    by (rule caret [OF r2 c2 _ n2 _ st3]) (simp_all add: wd)
  have l3: "limits_ok (categoryFilePickerStates ?s3)"
    using r2 l2 n2 st3 by (rule limits)
  have v: "activePane initialState = Categories" "activePane ?s1 = Files"
    "activePane ?s2 = Files" "active_caret ?s2 LargeFiles = 1"
    "active_caret ?s3 LargeFiles = 1"
    by code_simp+
  have e: "\<exists>a. getActiveCategory (categoryFilePickerStates ?s1) = Some a \<and>
        active_rows_of one_category (categoryFilePickerStates ?s1) a =
          active_rows_of one_category (categoryFilePickerStates initialState) a \<and>
        active_caret ?s1 a =
          (if row_selectable
                (at (active_rows_of one_category (categoryFilePickerStates initialState) a)
                   (active_caret initialState a))
           then active_caret initialState a
           else skip_forward
                  (active_rows_of one_category (categoryFilePickerStates initialState) a) 0)"
    using caret_stays_selectable [of one_category] r0 et0 v(1) st1 v(2) by blast
  let ?rows = "groupFilesByDirectory six_files Map.empty 5"
  have f0: "row_selectable (at ?rows 3)"
    by code_simp
  have f: "row_selectable (at ?rows (skip_forward ?rows 0)) \<and> skip_forward ?rows 0 \<le> 3"
    using caret_stays_selectable [of one_category] f0 by blast
  have k: "\<not> isl (step one_category ?s1 KeyDown)"
    using caret_stays_selectable [of one_category] r1 ne by blast
  have w0: "fileStart True 6 7 \<le> 1 \<and> 1 < fileEnd 7 (fileStart True 6 7)"
    by (simp add: fileStart_def fileEnd_def FILES_PAGE_SIZE_def)
  have w: "0 \<le> (1::int) \<and> (1::int) < 7"
    using caret_stays_selectable [of one_category] w0 by blast
  show ?thesis
    using ne i l0 et0 r1 c1 l1 n1 r2 c2 l2 wd c3 l3 v e f0 f k w0 by simp
qed

text \<open>
  The claim as stated fails after a collapse: with the directory expanded and the caret on its
  sixth file, a selectable row, \<^verbatim>\<open>h\<close> leaves the caret index at 6, which is then the
  expand-hint row.
\<close>

theorem caret_after_collapse_counterexample:
  "reachable one_category
     (state_after one_category
        [KeyRight, KeyM, KeyDown, KeyDown, KeyDown, KeyDown, KeyDown, KeyH]) \<and>
   activePane (state_after one_category
        [KeyRight, KeyM, KeyDown, KeyDown, KeyDown, KeyDown, KeyDown, KeyH]) = Files \<and>
   getActiveCategory (categoryFilePickerStates (state_after one_category
        [KeyRight, KeyM, KeyDown, KeyDown, KeyDown, KeyDown, KeyDown, KeyH])) = Some LargeFiles \<and>
   active_caret (state_after one_category
        [KeyRight, KeyM, KeyDown, KeyDown, KeyDown, KeyDown, KeyDown, KeyH]) LargeFiles = 6 \<and>
   map_option row_type
     (at (activeGroupedFiles (projr (render one_category (state_after one_category
        [KeyRight, KeyM, KeyDown, KeyDown, KeyDown, KeyDown, KeyDown, KeyH])))) 6)
     = Some ExpandHint \<and>
   \<not> caret_selectable one_category (state_after one_category
        [KeyRight, KeyM, KeyDown, KeyDown, KeyDown, KeyDown, KeyDown, KeyH]) \<and>
   caret_selectable one_category (state_after one_category
        [KeyRight, KeyM, KeyDown, KeyDown, KeyDown, KeyDown, KeyDown]) \<and>
   \<not> caret_within_default one_category (state_after one_category
        [KeyRight, KeyM, KeyDown, KeyDown, KeyDown, KeyDown, KeyDown])"
proof -
  let ?keys = "[KeyRight, KeyM, KeyDown, KeyDown, KeyDown, KeyDown, KeyDown, KeyH]"
  let ?before = "[KeyRight, KeyM, KeyDown, KeyDown, KeyDown, KeyDown, KeyDown]"
  have "is_next (run one_category initialState ?keys)"
    by code_simp
  then have re: "reachable one_category (state_after one_category ?keys)"
    by (rule reachable_state_after)
  have v: "activePane (state_after one_category ?keys) = Files"
    "getActiveCategory (categoryFilePickerStates (state_after one_category ?keys)) = Some LargeFiles"
    "active_caret (state_after one_category ?keys) LargeFiles = 6"
    "map_option row_type
       (at (activeGroupedFiles (projr (render one_category (state_after one_category ?keys)))) 6)
       = Some ExpandHint"
    "\<not> caret_selectable one_category (state_after one_category ?keys)"
    "caret_selectable one_category (state_after one_category ?before)"
    "\<not> caret_within_default one_category (state_after one_category ?before)"
    by code_simp+
  show ?thesis
    using re v by simp
qed

end
